theory Spec2Isabelle
  imports Main "HOL-Library.AList" "HOL-Library.Monad_Syntax"
begin

section \<open>JavaScript strings and characters\<close>

text \<open>
  The component under study is \<^verbatim>\<open>src/components/HtmlPreviewTool.tsx\<close>. Its two
  pure parts are \<^verbatim>\<open>detectDimensions\<close> (the metadata inferencer) and the body of
  \<^verbatim>\<open>processZipFile\<close> (archive extraction and reference rewriting). Both are
  driven by regular expressions, so the development starts with the regular
  expression semantics of ECMA-262 for the constructs the source uses.

  A JavaScript string is a sequence of UTF-16 code units. The model uses the HOL
  type \<^typ>\<open>string\<close>, whose characters are the code units \<open>0x00 .. 0xFF\<close>; the
  multiplication sign of the source (\<open>U+00D7\<close>) is the single character
  \<open>CHR 0xD7\<close>. Documents and file names with code units above \<open>0xFF\<close> are outside
  the model.
\<close>

definition mult_sign :: char where
  "mult_sign = CHR 0xD7"

definition backslash :: char where
  "backslash = CHR 0x5C"

definition is_lower_char :: "char \<Rightarrow> bool" where
  "is_lower_char ch = (let n = (of_char ch :: int) in
     (97 \<le> n \<and> n \<le> 122) \<or> (224 \<le> n \<and> n \<le> 254 \<and> n \<noteq> 247))"

definition is_upper_char :: "char \<Rightarrow> bool" where
  "is_upper_char ch = (let n = (of_char ch :: int) in
     (65 \<le> n \<and> n \<le> 90) \<or> (192 \<le> n \<and> n \<le> 222 \<and> n \<noteq> 215))"

text \<open>
  \<^verbatim>\<open>toUpperCase\<close> and \<^verbatim>\<open>toLowerCase\<close> on one code unit. Inside \<open>0x00 .. 0xFF\<close>
  the letters with a one-unit partner in the same range are \<open>a..z\<close> and
  \<open>0xE0 .. 0xFE\<close> without \<open>0xF7\<close>; the upper-case forms of \<open>0xB5\<close>, \<open>0xDF\<close> and
  \<open>0xFF\<close> lie outside the range (or are two units long), so they are their
  own canonical form here, as in \<^verbatim>\<open>Canonicalize\<close> of ECMA-262.
\<close>

definition toUpperChar :: "char \<Rightarrow> char" where
  "toUpperChar ch = (if is_lower_char ch then char_of ((of_char ch :: int) - 32) else ch)"

definition toLowerChar :: "char \<Rightarrow> char" where
  "toLowerChar ch = (if is_upper_char ch then char_of ((of_char ch :: int) + 32) else ch)"

definition toLowerCase :: "string \<Rightarrow> string" where
  "toLowerCase s = map toLowerChar s"

definition is_digit :: "char \<Rightarrow> bool" where
  "is_digit ch = (let n = (of_char ch :: int) in 48 \<le> n \<and> n \<le> 57)"

text \<open>White space and line terminators of ECMA-262 that lie in the modelled range.\<close>

definition is_space :: "char \<Rightarrow> bool" where
  "is_space ch = (let n = (of_char ch :: int) in (9 \<le> n \<and> n \<le> 13) \<or> n = 32 \<or> n = 160)"

definition trim :: "string \<Rightarrow> string" where
  "trim s = rev (dropWhile is_space (rev (dropWhile is_space s)))"

fun startsWith :: "string \<Rightarrow> string \<Rightarrow> bool" where
  "startsWith s [] = True"
| "startsWith [] (p # ps) = False"
| "startsWith (x # xs) (p # ps) = (x = p \<and> startsWith xs ps)"

definition endsWith :: "string \<Rightarrow> string \<Rightarrow> bool" where
  "endsWith s p = startsWith (rev s) (rev p)"

fun str_includes :: "string \<Rightarrow> string \<Rightarrow> bool" where
  "str_includes [] p = (p = [])"
| "str_includes (x # xs) p = (startsWith (x # xs) p \<or> str_includes xs p)"

section \<open>Regular expressions\<close>

datatype cls_item = CChar char | CDigit | CSpace | CNotSpace

datatype re =
    Chr char
  | Cls bool "cls_item list"
  | Seq re re
  | Alt re re
  | Star bool re
  | Plus re
  | Opt re
  | Group nat re
  | Eps
  | Eol

text \<open>
  \<open>Cls neg items\<close> is a character class, \<open>neg\<close> for \<^verbatim>\<open>[^...]\<close>; \<open>Star True\<close> is the
  greedy \<^verbatim>\<open>*\<close> and \<open>Star False\<close> the lazy \<^verbatim>\<open>*?\<close>; \<open>Group n\<close> is the \<open>n\<close>-th
  capturing group; a non-capturing group leaves no node; \<open>Eol\<close> is \<^verbatim>\<open>$\<close>
  without the multiline flag.
\<close>

type_synonym captures = "nat \<Rightarrow> string option"

definition Canonicalize :: "bool \<Rightarrow> char \<Rightarrow> char" where
  "Canonicalize ic ch = (if ic then toUpperChar ch else ch)"

fun item_has :: "cls_item \<Rightarrow> char \<Rightarrow> bool" where
  "item_has (CChar a) ch = (ch = a)"
| "item_has CDigit ch = is_digit ch"
| "item_has CSpace ch = is_space ch"
| "item_has CNotSpace ch = (\<not> is_space ch)"

definition cls_has :: "cls_item list \<Rightarrow> char \<Rightarrow> bool" where
  "cls_has items ch = list_ex (\<lambda>it. item_has it ch) items"

text \<open>
  \<^verbatim>\<open>CharacterSetMatcher\<close>: a character is found in the class when some member
  of the class has the same canonical form. Two characters have the same
  canonical form exactly when one is the other's upper- or lower-case form, which
  is what the test computes.
\<close>

definition CharacterSetMatcher :: "bool \<Rightarrow> bool \<Rightarrow> cls_item list \<Rightarrow> char \<Rightarrow> bool" where
  "CharacterSetMatcher ic neg items ch =
     (let found = (cls_has items ch \<or>
                   (ic \<and> (cls_has items (toUpperChar ch) \<or> cls_has items (toLowerChar ch))))
      in neg \<noteq> found)"

fun groups :: "re \<Rightarrow> nat list" where
  "groups (Chr a) = []"
| "groups (Cls neg items) = []"
| "groups (Seq a b) = groups a @ groups b"
| "groups (Alt a b) = groups a @ groups b"
| "groups (Star g a) = groups a"
| "groups (Plus a) = groups a"
| "groups (Opt a) = groups a"
| "groups (Group n a) = n # groups a"
| "groups Eps = []"
| "groups Eol = []"

definition clear_captures :: "re \<Rightarrow> captures \<Rightarrow> captures" where
  "clear_captures a c = (\<lambda>n. if n \<in> set (groups a) then None else c n)"

fun weight :: "re \<Rightarrow> nat" where
  "weight (Chr a) = 1"
| "weight (Cls neg items) = 1"
| "weight (Seq a b) = Suc (weight a + weight b)"
| "weight (Alt a b) = Suc (weight a + weight b)"
| "weight (Star g a) = Suc (weight a)"
| "weight (Plus a) = Suc (Suc (weight a))"
| "weight (Opt a) = Suc (weight a)"
| "weight (Group n a) = Suc (weight a)"
| "weight Eps = 1"
| "weight Eol = 1"

text \<open>
  The matcher, in the continuation-passing form of ECMA-262: \<open>matcher ic r s c k\<close>
  matches \<open>r\<close> at the front of the remaining input \<open>s\<close> with captures \<open>c\<close> and
  hands the rest of the input and the new captures to the continuation \<open>k\<close>;
  \<open>None\<close> is failure, which makes the caller backtrack. A repetition clears
  the captures of its body before each iteration and rejects an iteration that
  consumes nothing (\<^verbatim>\<open>RepeatMatcher\<close>); a capture is the text between the
  input at the group's start and at its end.
\<close>

function matcher ::
  "bool \<Rightarrow> re \<Rightarrow> string \<Rightarrow> captures \<Rightarrow> (string \<Rightarrow> captures \<Rightarrow> 'r option) \<Rightarrow> 'r option" where
  "matcher ic (Chr a) s c k =
     (case s of [] \<Rightarrow> None
      | x # xs \<Rightarrow> if Canonicalize ic x = Canonicalize ic a then k xs c else None)"
| "matcher ic (Cls neg items) s c k =
     (case s of [] \<Rightarrow> None
      | x # xs \<Rightarrow> if CharacterSetMatcher ic neg items x then k xs c else None)"
| "matcher ic (Seq a b) s c k = matcher ic a s c (\<lambda>s' c'. matcher ic b s' c' k)"
| "matcher ic (Alt a b) s c k =
     (case matcher ic a s c k of Some r \<Rightarrow> Some r | None \<Rightarrow> matcher ic b s c k)"
| "matcher ic (Star True a) s c k =
     (case matcher ic a s (clear_captures a c)
             (\<lambda>s' c'. if length s' < length s then matcher ic (Star True a) s' c' k else None) of
        Some r \<Rightarrow> Some r
      | None \<Rightarrow> k s c)"
| "matcher ic (Star False a) s c k =
     (case k s c of
        Some r \<Rightarrow> Some r
      | None \<Rightarrow> matcher ic a s (clear_captures a c)
             (\<lambda>s' c'. if length s' < length s then matcher ic (Star False a) s' c' k else None))"
| "matcher ic (Plus a) s c k =
     matcher ic a s (clear_captures a c) (\<lambda>s' c'. matcher ic (Star True a) s' c' k)"
| "matcher ic (Opt a) s c k =
     (case matcher ic a s (clear_captures a c)
             (\<lambda>s' c'. if length s' < length s then k s' c' else None) of
        Some r \<Rightarrow> Some r
      | None \<Rightarrow> k s c)"
| "matcher ic (Group n a) s c k =
     matcher ic a s c (\<lambda>s' c'. k s' (c'(n \<mapsto> take (length s - length s') s)))"
| "matcher ic Eps s c k = k s c"
| "matcher ic Eol s c k = (if s = [] then k s c else None)"
  by pat_completeness auto
termination
  by (relation "measures [\<lambda>(ic, r, s, c, k). weight r, \<lambda>(ic, r, s, c, k). length s]") auto


text \<open>
  The successful runs of the matcher as a relation: \<open>reach ic r s c s' c'\<close> holds
  when \<open>r\<close> can consume the front of \<open>s\<close> leaving \<open>s'\<close> and turning the
  captures \<open>c\<close> into \<open>c'\<close>. The matcher returns the first such run, in its
  priority order, that the continuation accepts.
\<close>

inductive reach :: "bool \<Rightarrow> re \<Rightarrow> string \<Rightarrow> captures \<Rightarrow> string \<Rightarrow> captures \<Rightarrow> bool" where
  reach_Chr: "Canonicalize ic x = Canonicalize ic a \<Longrightarrow> reach ic (Chr a) (x # xs) c xs c"
| reach_Cls: "CharacterSetMatcher ic neg items x \<Longrightarrow> reach ic (Cls neg items) (x # xs) c xs c"
| reach_Seq: "reach ic a s c s1 c1 \<Longrightarrow> reach ic b s1 c1 s2 c2 \<Longrightarrow> reach ic (Seq a b) s c s2 c2"
| reach_Alt1: "reach ic a s c s1 c1 \<Longrightarrow> reach ic (Alt a b) s c s1 c1"
| reach_Alt2: "reach ic b s c s1 c1 \<Longrightarrow> reach ic (Alt a b) s c s1 c1"
| reach_Star0: "reach ic (Star g a) s c s c"
| reach_StarStep: "reach ic a s (clear_captures a c) s1 c1 \<Longrightarrow> length s1 < length s \<Longrightarrow>
     reach ic (Star g a) s1 c1 s2 c2 \<Longrightarrow> reach ic (Star g a) s c s2 c2"
| reach_Plus: "reach ic a s (clear_captures a c) s1 c1 \<Longrightarrow>
     reach ic (Star True a) s1 c1 s2 c2 \<Longrightarrow> reach ic (Plus a) s c s2 c2"
| reach_Opt0: "reach ic (Opt a) s c s c"
| reach_Opt1: "reach ic a s (clear_captures a c) s1 c1 \<Longrightarrow> length s1 < length s \<Longrightarrow>
     reach ic (Opt a) s c s1 c1"
| reach_Group: "reach ic a s c s1 c1 \<Longrightarrow>
     reach ic (Group n a) s c s1 (c1(n \<mapsto> take (length s - length s1) s))"
| reach_Eps: "reach ic Eps s c s c"
| reach_Eol: "reach ic Eol [] c [] c"

subsection \<open>Regular expression objects, \<^verbatim>\<open>match\<close> and \<^verbatim>\<open>replace\<close>\<close>

record regexp =
  re_ast :: re
  flag_i :: bool
  flag_g :: bool

record match_result =
  index :: nat
  matched :: string
  caps :: captures

definition no_captures :: captures where
  "no_captures = (\<lambda>n. None)"

text \<open>
  \<^verbatim>\<open>RegExpBuiltinExec\<close>: try the pattern at the current index, then at the next
  one, up to and including the end of the input. \<open>exec_loop ic r i s\<close> has \<open>s\<close>
  the input from index \<open>i\<close> on.
\<close>

fun exec_loop :: "bool \<Rightarrow> re \<Rightarrow> nat \<Rightarrow> string \<Rightarrow> match_result option" where
  "exec_loop ic r i [] =
     (case matcher ic r [] no_captures (\<lambda>s' c. Some (s', c)) of
        Some (s', c) \<Rightarrow> Some \<lparr>index = i, matched = [], caps = c\<rparr>
      | None \<Rightarrow> None)"
| "exec_loop ic r i (x # xs) =
     (case matcher ic r (x # xs) no_captures (\<lambda>s' c. Some (s', c)) of
        Some (s', c) \<Rightarrow>
          Some \<lparr>index = i, matched = take (length (x # xs) - length s') (x # xs), caps = c\<rparr>
      | None \<Rightarrow> exec_loop ic r (Suc i) xs)"

text \<open>\<^verbatim>\<open>String.prototype.match\<close> with a pattern that has no \<^verbatim>\<open>g\<close> flag.\<close>

definition str_match :: "regexp \<Rightarrow> string \<Rightarrow> match_result option" where
  "str_match rx s = exec_loop (flag_i rx) (re_ast rx) 0 s"

definition capture_text :: "captures \<Rightarrow> nat \<Rightarrow> string" where
  "capture_text c n = (case c n of None \<Rightarrow> [] | Some v \<Rightarrow> v)"

definition digit_value :: "char \<Rightarrow> nat" where
  "digit_value ch = nat ((of_char ch :: int) - 48)"

text \<open>
  \<^verbatim>\<open>GetSubstitution\<close> of ECMA-262 without named groups: \<open>mt\<close> is the matched text,
  \<open>pre\<close> the input before it, \<open>suf\<close> the input after it, \<open>m\<close> the number of
  capturing groups of the pattern. \<^verbatim>\<open>$$\<close> is a dollar sign, \<^verbatim>\<open>$&\<close> the match,
  \<^verbatim>\<open>$`\<close> and \<^verbatim>\<open>$'\<close> the text before and after it, \<^verbatim>\<open>$n\<close> and \<^verbatim>\<open>$nn\<close> a capture
  (a group that did not take part gives the empty string); any other dollar
  sign stands for itself.
\<close>

fun GetSubstitution ::
  "string \<Rightarrow> string \<Rightarrow> string \<Rightarrow> captures \<Rightarrow> nat \<Rightarrow> string \<Rightarrow> string" where
  "GetSubstitution mt pre suf c m [] = []"
| "GetSubstitution mt pre suf c m [x] = [x]"
| "GetSubstitution mt pre suf c m (x # y # t) =
     (if x \<noteq> CHR ''$'' then x # GetSubstitution mt pre suf c m (y # t)
      else if y = CHR ''$'' then CHR ''$'' # GetSubstitution mt pre suf c m t
      else if y = CHR ''&'' then mt @ GetSubstitution mt pre suf c m t
      else if y = CHR ''`'' then pre @ GetSubstitution mt pre suf c m t
      else if y = CHR 0x27 then suf @ GetSubstitution mt pre suf c m t
      else if is_digit y then
        (case t of
           z # t' \<Rightarrow>
             if is_digit z \<and> 10 * digit_value y + digit_value z \<le> m then
               (if 1 \<le> 10 * digit_value y + digit_value z
                then capture_text c (10 * digit_value y + digit_value z)
                       @ GetSubstitution mt pre suf c m t'
                else x # y # z # GetSubstitution mt pre suf c m t')
             else if 1 \<le> digit_value y \<and> digit_value y \<le> m
               then capture_text c (digit_value y) @ GetSubstitution mt pre suf c m (z # t')
               else x # y # GetSubstitution mt pre suf c m (z # t')
         | [] \<Rightarrow>
             if 1 \<le> digit_value y \<and> digit_value y \<le> m
             then capture_text c (digit_value y) else [x, y])
      else x # GetSubstitution mt pre suf c m (y # t))"

text \<open>
  \<^verbatim>\<open>String.prototype.replace\<close> with a \<^verbatim>\<open>g\<close> pattern: every match, found from
  the end of the previous one, is replaced; after an empty match the search
  resumes one character further. \<open>pre\<close> is the input already passed.
\<close>

function replace_all :: "bool \<Rightarrow> re \<Rightarrow> string \<Rightarrow> string \<Rightarrow> string \<Rightarrow> string" where
  "replace_all ic r tmpl pre [] =
     (case exec_loop ic r 0 [] of
        None \<Rightarrow> []
      | Some mr \<Rightarrow> GetSubstitution (matched mr) pre [] (caps mr) (length (groups r)) tmpl)"
| "replace_all ic r tmpl pre (x # xs) =
     (case exec_loop ic r 0 (x # xs) of
        None \<Rightarrow> x # xs
      | Some mr \<Rightarrow>
          (let i = index mr; e = i + length (matched mr);
               before = take i (x # xs);
               repl = GetSubstitution (matched mr) (pre @ before) (drop e (x # xs)) (caps mr)
                        (length (groups r)) tmpl
           in if matched mr = []
              then before @ repl @
                     (case drop i (x # xs) of
                        [] \<Rightarrow> []
                      | y # ys \<Rightarrow> y # replace_all ic r tmpl (pre @ before @ [y]) ys)
              else before @ repl
                     @ replace_all ic r tmpl (pre @ take e (x # xs)) (drop e (x # xs))))"
  by pat_completeness auto
termination
proof (relation "measure (\<lambda>(ic, r, tmpl, pre, s). length s)", goal_cases)
  case 1
  show ?case by simp
next
  case (2 ic r tmpl pre x xs mr i e before repl y ys)
  have "length (drop (index mr) (x # xs)) \<le> length (x # xs)" by simp
  with 2 show ?case by simp
next
  case (3 ic r tmpl pre x xs mr i e before repl)
  then show ?case by auto
qed

definition replace_first :: "bool \<Rightarrow> re \<Rightarrow> string \<Rightarrow> string \<Rightarrow> string" where
  "replace_first ic r tmpl s =
     (case exec_loop ic r 0 s of
        None \<Rightarrow> s
      | Some mr \<Rightarrow>
          (let i = index mr; e = i + length (matched mr)
           in take i s @ GetSubstitution (matched mr) (take i s) (drop e s) (caps mr)
                           (length (groups r)) tmpl
                @ drop e s))"

definition str_replace :: "regexp \<Rightarrow> string \<Rightarrow> string \<Rightarrow> string" where
  "str_replace rx tmpl s =
     (if flag_g rx then replace_all (flag_i rx) (re_ast rx) tmpl [] s
      else replace_first (flag_i rx) (re_ast rx) tmpl s)"


subsection \<open>Writing patterns\<close>

definition dquote :: char where
  "dquote = CHR 0x22"

definition squote :: char where
  "squote = CHR 0x27"

definition chrs :: "string \<Rightarrow> re list" where
  "chrs s = map Chr s"

fun seq :: "re list \<Rightarrow> re" where
  "seq [] = Eps"
| "seq [r] = r"
| "seq (r # rs) = Seq r (seq rs)"

fun alts :: "re list \<Rightarrow> re" where
  "alts [] = Eps"
| "alts [r] = r"
| "alts (r # rs) = Alt r (alts rs)"

definition cls_quote :: re where
  "cls_quote = Cls False [CChar dquote, CChar squote]"

definition cls_not_quote :: re where
  "cls_not_quote = Cls True [CChar dquote, CChar squote]"

definition cls_space :: re where
  "cls_space = Cls False [CSpace]"

definition cls_digit :: re where
  "cls_digit = Cls False [CDigit]"

definition cls_x :: re where
  "cls_x = Cls False [CChar CHR ''x'', CChar mult_sign]"

section \<open>The metadata inferencer: \<^verbatim>\<open>detectDimensions\<close>\<close>

text \<open>
  Numbers: \<^verbatim>\<open>parseInt\<close> is applied to captures of \<^verbatim>\<open>(\d+)\<close> only, so a number is
  a natural number or \<^verbatim>\<open>NaN\<close> (the capture is \<^verbatim>\<open>undefined\<close>, or has no leading
  digit). The model computes with exact naturals; the source's doubles agree
  with them below \<open>2^53\<close>, and a digit string denotes zero in both exactly when
  all its digits are zero.
\<close>

datatype jsnum = NaN | Num nat

fun falsy :: "jsnum \<Rightarrow> bool" where
  "falsy NaN = True"
| "falsy (Num n) = (n = 0)"

definition decimal_value :: "string \<Rightarrow> nat" where
  "decimal_value ds = foldl (\<lambda>n d. 10 * n + digit_value d) 0 ds"

fun parseInt :: "string option \<Rightarrow> jsnum" where
  "parseInt None = NaN"
| "parseInt (Some s) =
     (case takeWhile is_digit s of [] \<Rightarrow> NaN | d # ds \<Rightarrow> Num (decimal_value (d # ds)))"

fun digits_of :: "nat \<Rightarrow> string" where
  "digits_of n =
     (if n < 10 then [char_of (48 + int n)]
      else digits_of (n div 10) @ [char_of (48 + int (n mod 10))])"

declare digits_of.simps [simp del]

fun toString :: "jsnum \<Rightarrow> string" where
  "toString NaN = ''NaN''"
| "toString (Num n) = digits_of n"

type_synonym dims = "jsnum \<times> jsnum"

text \<open>The test \<^verbatim>\<open>!width || !height\<close> that guards every tier after the first.\<close>

definition unset :: "dims \<Rightarrow> bool" where
  "unset wh = (falsy (fst wh) \<or> falsy (snd wh))"

record detected =
  width :: jsnum
  height :: jsnum
  name :: string

subsection \<open>The patterns of the source, in source order\<close>

definition re_adSize :: regexp where
  "re_adSize = \<lparr>re_ast = seq (chrs ''<meta'' @ [Plus cls_space] @ chrs ''name='' @ [cls_quote]
       @ chrs ''ad.size'' @ [cls_quote, Plus cls_space] @ chrs ''content=''
       @ [cls_quote, Group 1 (Plus cls_not_quote), cls_quote]),
     flag_i = True, flag_g = False\<rparr>"

definition re_width :: regexp where
  "re_width = \<lparr>re_ast = seq (chrs ''width='' @ [Group 1 (Plus cls_digit)]),
     flag_i = True, flag_g = False\<rparr>"

definition re_height :: regexp where
  "re_height = \<lparr>re_ast = seq (chrs ''height='' @ [Group 1 (Plus cls_digit)]),
     flag_i = True, flag_g = False\<rparr>"

definition re_viewport :: regexp where
  "re_viewport = \<lparr>re_ast = seq (chrs ''<meta'' @ [Plus cls_space] @ chrs ''name='' @ [cls_quote]
       @ chrs ''viewport'' @ [cls_quote, Plus cls_space] @ chrs ''content=''
       @ [cls_quote, Group 1 (Plus cls_not_quote), cls_quote]),
     flag_i = True, flag_g = False\<rparr>"

text \<open>
  The four inline-style patterns differ in the tag and in the order of the two
  properties only:
  \<^verbatim>\<open>/<TAG[^>]*style=["']([^"']*P1:\s*(\d+)px[^"']*P2:\s*(\d+)px[^"']*)["']/i\<close>.
\<close>

definition inline_style_re :: "string \<Rightarrow> string \<Rightarrow> string \<Rightarrow> regexp" where
  "inline_style_re tag p1 p2 = \<lparr>re_ast = seq (chrs tag @ [Star True (Cls True [CChar CHR ''>''])]
       @ chrs ''style='' @ [cls_quote,
           Group 1 (seq ([Star True cls_not_quote] @ chrs p1 @ [Star True cls_space,
              Group 2 (Plus cls_digit)] @ chrs ''px'' @ [Star True cls_not_quote] @ chrs p2
              @ [Star True cls_space, Group 3 (Plus cls_digit)] @ chrs ''px''
              @ [Star True cls_not_quote])),
           cls_quote]),
     flag_i = True, flag_g = False\<rparr>"

definition re_bodyStyle :: regexp where
  "re_bodyStyle = inline_style_re ''<body'' ''width:'' ''height:''"

definition re_bodyStyle2 :: regexp where
  "re_bodyStyle2 = inline_style_re ''<body'' ''height:'' ''width:''"

definition re_htmlStyle :: regexp where
  "re_htmlStyle = inline_style_re ''<html'' ''width:'' ''height:''"

definition re_styleTag :: regexp where
  "re_styleTag = \<lparr>re_ast = seq (chrs ''<style'' @ [Star True (Cls True [CChar CHR ''>'']),
       Chr CHR ''>'', Group 1 (Star False (Cls False [CSpace, CNotSpace]))] @ chrs ''</style>''),
     flag_i = True, flag_g = False\<rparr>"

text \<open>The four style-sheet patterns: \<^verbatim>\<open>/SEL\s*\{[^}]*PROP:\s*(\d+)px/i\<close>.\<close>

definition css_rule_re :: "string \<Rightarrow> string \<Rightarrow> regexp" where
  "css_rule_re sel prop = \<lparr>re_ast = seq (chrs sel @ [Star True cls_space, Chr CHR ''{'',
       Star True (Cls True [CChar CHR ''}''])] @ chrs prop
       @ [Star True cls_space, Group 1 (Plus cls_digit)] @ chrs ''px''),
     flag_i = True, flag_g = False\<rparr>"

definition re_divStyle :: regexp where
  "re_divStyle = inline_style_re ''<div'' ''width:'' ''height:''"

definition re_comment :: regexp where
  "re_comment = \<lparr>re_ast = seq (chrs ''<!--'' @ [Star True cls_space,
       alts [seq (chrs ''size''), seq (chrs ''dimensions''), seq (chrs ''format'')],
       Chr CHR '':'', Star True cls_space, Group 1 (Plus cls_digit), Star True cls_space, cls_x,
       Star True cls_space, Group 2 (Plus cls_digit), Star True cls_space] @ chrs ''-->''),
     flag_i = True, flag_g = False\<rparr>"

definition re_dataFormat :: regexp where
  "re_dataFormat = \<lparr>re_ast = seq (chrs ''data-format='' @ [cls_quote,
       Group 1 (Plus cls_not_quote), cls_quote]),
     flag_i = True, flag_g = False\<rparr>"

definition re_format :: regexp where
  "re_format = \<lparr>re_ast = seq [Group 1 (Plus cls_digit), Star True cls_space, cls_x,
       Star True cls_space, Group 2 (Plus cls_digit)],
     flag_i = True, flag_g = False\<rparr>"

definition re_filenameDims :: regexp where
  "re_filenameDims = \<lparr>re_ast = seq [Group 1 (Plus cls_digit),
       Cls False [CChar CHR ''x'', CChar mult_sign, CChar CHR ''_'', CChar CHR ''-''],
       Group 2 (Plus cls_digit)],
     flag_i = True, flag_g = False\<rparr>"

definition re_title :: regexp where
  "re_title = \<lparr>re_ast = seq (chrs ''<title>'' @ [Group 1 (Plus (Cls True [CChar CHR ''<'']))]
       @ chrs ''</title>''),
     flag_i = True, flag_g = False\<rparr>"

definition re_metaName :: regexp where
  "re_metaName = \<lparr>re_ast = seq (chrs ''<meta'' @ [Plus cls_space] @ chrs ''name='' @ [cls_quote,
       alts [seq (chrs ''format-name''), seq (chrs ''display-name'')],
       cls_quote, Plus cls_space] @ chrs ''content=''
       @ [cls_quote, Group 1 (Plus cls_not_quote), cls_quote]),
     flag_i = True, flag_g = False\<rparr>"

definition re_htmlExt :: regexp where
  "re_htmlExt = \<lparr>re_ast = seq (chrs ''.html'' @ [Eol]), flag_i = False, flag_g = False\<rparr>"

definition re_underscoreHyphen :: regexp where
  "re_underscoreHyphen = \<lparr>re_ast = Cls False [CChar CHR ''_'', CChar CHR ''-''],
     flag_i = False, flag_g = True\<rparr>"

definition re_nameHasDims :: regexp where
  "re_nameHasDims = \<lparr>re_ast = seq [Plus cls_digit, Star True cls_space, cls_x,
       Star True cls_space, Plus cls_digit],
     flag_i = False, flag_g = False\<rparr>"

subsection \<open>The dimension tiers\<close>

text \<open>
  Each tier takes the pair \<open>(width, height)\<close> found so far and returns the new
  pair. The result is an option: \<open>None\<close> stands for the \<^verbatim>\<open>TypeError\<close> that the
  source would throw when it calls a method on a capture that is \<^verbatim>\<open>undefined\<close>.
\<close>

definition meta_content_tier :: "regexp \<Rightarrow> string \<Rightarrow> dims \<Rightarrow> dims option" where
  "meta_content_tier rx htmlContent wh =
     (case str_match rx htmlContent of
        None \<Rightarrow> Some wh
      | Some metaMatch \<Rightarrow>
          (case caps metaMatch 1 of
             None \<Rightarrow> None
           | Some content \<Rightarrow>
               (case str_match re_width content of
                  None \<Rightarrow> Some wh
                | Some widthMatch \<Rightarrow>
                    (case str_match re_height content of
                       None \<Rightarrow> Some wh
                     | Some heightMatch \<Rightarrow>
                         Some (parseInt (caps widthMatch 1), parseInt (caps heightMatch 1))))))"

definition tier_adSize :: "string \<Rightarrow> dims \<Rightarrow> dims option" where
  "tier_adSize htmlContent wh = meta_content_tier re_adSize htmlContent wh"

definition tier_viewport :: "string \<Rightarrow> dims \<Rightarrow> dims option" where
  "tier_viewport htmlContent wh = meta_content_tier re_viewport htmlContent wh"

definition tier_bodyStyle :: "string \<Rightarrow> dims \<Rightarrow> dims option" where
  "tier_bodyStyle htmlContent wh =
     (case str_match re_bodyStyle htmlContent of
        Some bodyStyleMatch \<Rightarrow>
          Some (parseInt (caps bodyStyleMatch 2), parseInt (caps bodyStyleMatch 3))
      | None \<Rightarrow>
          (case str_match re_bodyStyle2 htmlContent of
             Some bodyStyleMatch2 \<Rightarrow>
               Some (parseInt (caps bodyStyleMatch2 3), parseInt (caps bodyStyleMatch2 2))
           | None \<Rightarrow> Some wh))"

definition tier_htmlStyle :: "string \<Rightarrow> dims \<Rightarrow> dims option" where
  "tier_htmlStyle htmlContent wh =
     (case str_match re_htmlStyle htmlContent of
        Some htmlStyleMatch \<Rightarrow>
          Some (parseInt (caps htmlStyleMatch 2), parseInt (caps htmlStyleMatch 3))
      | None \<Rightarrow> Some wh)"

definition css_selector_dims :: "string \<Rightarrow> string \<Rightarrow> dims \<Rightarrow> dims" where
  "css_selector_dims sel cssContent wh =
     (let w = (case str_match (css_rule_re sel ''width:'') cssContent of
                 Some widthMatch \<Rightarrow> parseInt (caps widthMatch 1)
               | None \<Rightarrow> fst wh);
          h = (case str_match (css_rule_re sel ''height:'') cssContent of
                 Some heightMatch \<Rightarrow> parseInt (caps heightMatch 1)
               | None \<Rightarrow> snd wh)
      in (w, h))"

definition tier_styleTag :: "string \<Rightarrow> dims \<Rightarrow> dims option" where
  "tier_styleTag htmlContent wh =
     (case str_match re_styleTag htmlContent of
        None \<Rightarrow> Some wh
      | Some styleTagMatch \<Rightarrow>
          (case caps styleTagMatch 1 of
             None \<Rightarrow> None
           | Some cssContent \<Rightarrow>
               (let wh1 = css_selector_dims ''body'' cssContent wh
                in if unset wh1 then Some (css_selector_dims ''html'' cssContent wh1)
                   else Some wh1)))"

definition tier_divStyle :: "string \<Rightarrow> dims \<Rightarrow> dims option" where
  "tier_divStyle htmlContent wh =
     (case str_match re_divStyle htmlContent of
        Some divStyleMatch \<Rightarrow>
          Some (parseInt (caps divStyleMatch 2), parseInt (caps divStyleMatch 3))
      | None \<Rightarrow> Some wh)"

definition tier_comment :: "string \<Rightarrow> dims \<Rightarrow> dims option" where
  "tier_comment htmlContent wh =
     (case str_match re_comment htmlContent of
        Some commentMatch \<Rightarrow>
          Some (parseInt (caps commentMatch 1), parseInt (caps commentMatch 2))
      | None \<Rightarrow> Some wh)"

definition tier_dataFormat :: "string \<Rightarrow> dims \<Rightarrow> dims option" where
  "tier_dataFormat htmlContent wh =
     (case str_match re_dataFormat htmlContent of
        None \<Rightarrow> Some wh
      | Some dataFormatMatch \<Rightarrow>
          (case caps dataFormatMatch 1 of
             None \<Rightarrow> None
           | Some fmt \<Rightarrow>
               (case str_match re_format fmt of
                  Some formatMatch \<Rightarrow>
                    Some (parseInt (caps formatMatch 1), parseInt (caps formatMatch 2))
                | None \<Rightarrow> Some wh)))"

definition tier_filename :: "string \<Rightarrow> dims \<Rightarrow> dims option" where
  "tier_filename filename wh =
     (case str_match re_filenameDims filename of
        Some dimensionMatch \<Rightarrow>
          Some (parseInt (caps dimensionMatch 1), parseInt (caps dimensionMatch 2))
      | None \<Rightarrow> Some wh)"

text \<open>\<^verbatim>\<open>if (!width || !height) { tier }\<close>\<close>

definition if_unset :: "(dims \<Rightarrow> dims option) \<Rightarrow> dims \<Rightarrow> dims option" where
  "if_unset tier wh = (if unset wh then tier wh else Some wh)"

definition fallback :: "dims \<Rightarrow> dims" where
  "fallback wh = (if unset wh then (Num 800, Num 600) else wh)"

text \<open>The cascade of lines 25 to 136, before the default of lines 138 to 142.\<close>

definition cascade :: "string \<Rightarrow> string \<Rightarrow> dims option" where
  "cascade htmlContent filename = do {
     wh1 \<leftarrow> tier_adSize htmlContent (Num 0, Num 0);
     wh2 \<leftarrow> if_unset (tier_viewport htmlContent) wh1;
     wh3 \<leftarrow> if_unset (tier_bodyStyle htmlContent) wh2;
     wh4 \<leftarrow> if_unset (tier_htmlStyle htmlContent) wh3;
     wh5 \<leftarrow> if_unset (tier_styleTag htmlContent) wh4;
     wh6 \<leftarrow> if_unset (tier_divStyle htmlContent) wh5;
     wh7 \<leftarrow> if_unset (tier_comment htmlContent) wh6;
     wh8 \<leftarrow> if_unset (tier_dataFormat htmlContent) wh7;
     if_unset (tier_filename filename) wh8
   }"

subsection \<open>The name\<close>

definition name_from_title :: "string \<Rightarrow> string option" where
  "name_from_title htmlContent =
     (case str_match re_title htmlContent of
        None \<Rightarrow> Some []
      | Some titleMatch \<Rightarrow>
          (case caps titleMatch 1 of None \<Rightarrow> None | Some t \<Rightarrow> Some (trim t)))"

definition name_from_meta :: "string \<Rightarrow> string \<Rightarrow> string option" where
  "name_from_meta htmlContent nm =
     (if nm = [] then
        (case str_match re_metaName htmlContent of
           None \<Rightarrow> Some nm
         | Some metaNameMatch \<Rightarrow>
             (case caps metaNameMatch 1 of None \<Rightarrow> None | Some t \<Rightarrow> Some (trim t)))
      else Some nm)"

definition name_from_filename :: "string \<Rightarrow> string \<Rightarrow> string" where
  "name_from_filename filename nm =
     (if nm = [] then
        (let cleanFilename = str_replace re_underscoreHyphen '' ''
                               (str_replace re_htmlExt [] filename);
             lowerFilename = toLowerCase cleanFilename
         in if str_includes lowerFilename ''mobile'' \<and> str_includes lowerFilename ''portrait''
              then ''Mobile Portrait''
            else if str_includes lowerFilename ''mobile'' \<and> str_includes lowerFilename ''landscape''
              then ''Mobile Landscape''
            else if str_includes lowerFilename ''tablet'' \<and> str_includes lowerFilename ''portrait''
              then ''Tablet Portrait''
            else if str_includes lowerFilename ''tablet'' \<and> str_includes lowerFilename ''landscape''
              then ''Tablet Landscape''
            else if str_includes lowerFilename ''desktop''
              then ''Desktop''
            else cleanFilename)
      else nm)"

definition name_with_dims :: "dims \<Rightarrow> string \<Rightarrow> string" where
  "name_with_dims wh nm =
     (if nm \<noteq> [] \<and> str_match re_nameHasDims nm = None
        then nm @ '' ('' @ toString (fst wh) @ [mult_sign] @ toString (snd wh) @ '')''
      else if nm = []
        then toString (fst wh) @ [mult_sign] @ toString (snd wh)
      else nm)"

definition detectDimensions :: "string \<Rightarrow> string \<Rightarrow> detected option" where
  "detectDimensions htmlContent filename = do {
     wh9 \<leftarrow> cascade htmlContent filename;
     let wh = fallback wh9;
     nm1 \<leftarrow> name_from_title htmlContent;
     nm2 \<leftarrow> name_from_meta htmlContent nm1;
     let nm3 = name_from_filename filename nm2;
     Some \<lparr>width = fst wh, height = snd wh, name = name_with_dims wh nm3\<rparr>
   }"

text \<open>
  The cascade as a list of tiers run from left to right, each under the guard
  \<^verbatim>\<open>!width || !height\<close>; it is used to speak about the position of a tier.
\<close>

definition tiers :: "string \<Rightarrow> string \<Rightarrow> (dims \<Rightarrow> dims option) list" where
  "tiers htmlContent filename =
     [tier_adSize htmlContent, tier_viewport htmlContent, tier_bodyStyle htmlContent,
      tier_htmlStyle htmlContent, tier_styleTag htmlContent, tier_divStyle htmlContent,
      tier_comment htmlContent, tier_dataFormat htmlContent, tier_filename filename]"

fun run_tiers :: "(dims \<Rightarrow> dims option) list \<Rightarrow> dims \<Rightarrow> dims option" where
  "run_tiers [] wh = Some wh"
| "run_tiers (t # ts) wh = (case if_unset t wh of None \<Rightarrow> None | Some wh' \<Rightarrow> run_tiers ts wh')"

fun positive :: "jsnum \<Rightarrow> bool" where
  "positive NaN = False"
| "positive (Num n) = (0 < n)"

text \<open>
  No detector yields anything: started on the empty pair, every tier returns
  the empty pair.
\<close>

definition no_detector_yields :: "string \<Rightarrow> string \<Rightarrow> bool" where
  "no_detector_yields htmlContent filename =
     list_all (\<lambda>t. t (Num 0, Num 0) = Some (Num 0, Num 0)) (tiers htmlContent filename)"

text \<open>
  The capturing groups that every successful run of a pattern sets: those
  outside repetitions and present in every alternative.
\<close>

fun sure :: "re \<Rightarrow> nat set" where
  "sure (Chr a) = {}"
| "sure (Cls neg items) = {}"
| "sure (Seq a b) = (sure a - set (groups b)) \<union> sure b"
| "sure (Alt a b) = sure a \<inter> sure b"
| "sure (Star g a) = {}"
| "sure (Plus a) = {}"
| "sure (Opt a) = {}"
| "sure (Group n a) = insert n (sure a)"
| "sure Eps = {}"
| "sure Eol = {}"

text \<open>
  A tier keeps or overwrites: it returns the pair it was given, or a result
  that does not depend on that pair.
\<close>

definition keeps_or_overwrites :: "(dims \<Rightarrow> dims option) \<Rightarrow> bool" where
  "keeps_or_overwrites t = (\<forall>wh1 wh2. t wh1 = Some wh1 \<or> t wh1 = t wh2)"

subsection \<open>Example documents\<close>

definition plain_doc :: string where
  "plain_doc = ''<p>hi</p>''"

definition title_doc :: string where
  "title_doc = ''<title>Foo</title>''"

definition viewport_doc :: string where
  \<open>viewport_doc = ''<meta name="viewport" content="width=320,height=480">''\<close>

definition adsize_viewport_doc :: string where
  \<open>adsize_viewport_doc =
     ''<meta name="ad.size" content="width=300,height=250"><meta name="viewport" content="width=320,height=480">''\<close>

definition partial_overwritten_doc :: string where
  \<open>partial_overwritten_doc =
     ''<style>body{width:300px}</style><div style="width:100px;height:50px">''\<close>

section \<open>Patterns built from text: \<^verbatim>\<open>new RegExp\<close>\<close>

text \<open>
  The reference patterns of \<^verbatim>\<open>processZipFile\<close> are built at run time from a
  string that contains the escaped file name, so the model needs the reading of
  a pattern text. \<open>parse_pattern\<close> reads the part of the pattern syntax of
  ECMA-262 that occurs in this program: pattern characters, \<^verbatim>\<open>\\<close>-escapes of
  syntax characters and of \<^verbatim>\<open>/\<close>, the class escapes \<^verbatim>\<open>\d\<close>, \<^verbatim>\<open>\s\<close>, \<^verbatim>\<open>\S\<close>,
  character classes without ranges, capturing and \<^verbatim>\<open>(?:\<close> groups, alternatives,
  the quantifiers \<^verbatim>\<open>*\<close>, \<^verbatim>\<open>*?\<close>, \<^verbatim>\<open>+\<close>, \<^verbatim>\<open>?\<close> and the assertion \<^verbatim>\<open>$\<close>. On any other
  construct, and on a text that is not a pattern, it returns \<open>None\<close>; for a
  text that is not a pattern \<^verbatim>\<open>new RegExp\<close> throws a \<^verbatim>\<open>SyntaxError\<close>.
\<close>

definition syntax_chars :: "char list" where
  "syntax_chars = ''.*+?^${}()|[]'' @ [backslash]"

definition is_syntax_char :: "char \<Rightarrow> bool" where
  "is_syntax_char ch = (ch \<in> set syntax_chars)"

datatype group_kind = TopLevel | Capturing nat | NonCapturing

text \<open>
  A frame is a group that is still open: its kind, its finished alternatives
  and the terms of the alternative being read.
\<close>

datatype frame = Frame group_kind "re list" "re list"

text \<open>
  The reader's state: the enclosing frames, the current frame, the number of
  the next capturing group, and whether the last term may take a quantifier.
\<close>

datatype pstate = PState "frame list" frame nat bool

fun close_frame :: "frame \<Rightarrow> re" where
  "close_frame (Frame kind as ts) =
     (case kind of
        Capturing n \<Rightarrow> Group n (alts (as @ [seq ts]))
      | _ \<Rightarrow> alts (as @ [seq ts]))"

fun add_atom :: "re \<Rightarrow> pstate \<Rightarrow> pstate" where
  "add_atom a (PState stack (Frame kind as ts) n q) = PState stack (Frame kind as (ts @ [a])) n True"

fun add_assertion :: "re \<Rightarrow> pstate \<Rightarrow> pstate" where
  "add_assertion a (PState stack (Frame kind as ts) n q) =
     PState stack (Frame kind as (ts @ [a])) n False"

fun quantify :: "(re \<Rightarrow> re) \<Rightarrow> pstate \<Rightarrow> pstate option" where
  "quantify qf (PState stack (Frame kind as ts) n q) =
     (if q \<and> ts \<noteq> [] then Some (PState stack (Frame kind as (butlast ts @ [qf (last ts)])) n False)
      else None)"

fun next_alternative :: "pstate \<Rightarrow> pstate" where
  "next_alternative (PState stack (Frame kind as ts) n q) =
     PState stack (Frame kind (as @ [seq ts]) []) n False"

fun open_capture :: "pstate \<Rightarrow> pstate" where
  "open_capture (PState stack cur n q) = PState (cur # stack) (Frame (Capturing n) [] []) (Suc n) False"

fun open_noncapture :: "pstate \<Rightarrow> pstate" where
  "open_noncapture (PState stack cur n q) = PState (cur # stack) (Frame NonCapturing [] []) n False"

fun close_group :: "pstate \<Rightarrow> pstate option" where
  "close_group (PState [] cur n q) = None"
| "close_group (PState (outer # stack) cur n q) =
     Some (add_atom (close_frame cur) (PState stack outer n q))"

fun parse_main :: "pstate \<Rightarrow> string \<Rightarrow> re option"
  and parse_class :: "pstate \<Rightarrow> bool \<Rightarrow> cls_item list \<Rightarrow> string \<Rightarrow> re option" where
  "parse_main st [] =
     (case st of PState [] cur n q \<Rightarrow> Some (close_frame cur) | PState (outer # stack) cur n q \<Rightarrow> None)"
| "parse_main st (ch # s) =
     (if ch = CHR ''('' then
        (case s of
           [] \<Rightarrow> parse_main (open_capture st) s
         | d # s1 \<Rightarrow>
             if d = CHR ''?'' then
               (case s1 of
                  [] \<Rightarrow> None
                | e # s2 \<Rightarrow> if e = CHR '':'' then parse_main (open_noncapture st) s2 else None)
             else parse_main (open_capture st) s)
      else if ch = CHR '')'' then
        (case close_group st of None \<Rightarrow> None | Some st' \<Rightarrow> parse_main st' s)
      else if ch = CHR ''|'' then parse_main (next_alternative st) s
      else if ch = CHR ''*'' then
        (case s of
           [] \<Rightarrow> (case quantify (Star True) st of None \<Rightarrow> None | Some st' \<Rightarrow> parse_main st' s)
         | d # s1 \<Rightarrow>
             if d = CHR ''?''
             then (case quantify (Star False) st of None \<Rightarrow> None | Some st' \<Rightarrow> parse_main st' s1)
             else (case quantify (Star True) st of None \<Rightarrow> None | Some st' \<Rightarrow> parse_main st' s))
      else if ch = CHR ''+'' then
        (case s of
           [] \<Rightarrow> (case quantify Plus st of None \<Rightarrow> None | Some st' \<Rightarrow> parse_main st' s)
         | d # s1 \<Rightarrow>
             if d = CHR ''?'' then None
             else (case quantify Plus st of None \<Rightarrow> None | Some st' \<Rightarrow> parse_main st' s))
      else if ch = CHR ''?'' then
        (case s of
           [] \<Rightarrow> (case quantify Opt st of None \<Rightarrow> None | Some st' \<Rightarrow> parse_main st' s)
         | d # s1 \<Rightarrow>
             if d = CHR ''?'' then None
             else (case quantify Opt st of None \<Rightarrow> None | Some st' \<Rightarrow> parse_main st' s))
      else if ch = CHR ''['' then
        (case s of
           [] \<Rightarrow> None
         | d # s1 \<Rightarrow> if d = CHR ''^'' then parse_class st True [] s1 else parse_class st False [] s)
      else if ch = backslash then
        (case s of
           [] \<Rightarrow> None
         | d # s1 \<Rightarrow>
             if d = CHR ''d'' then parse_main (add_atom (Cls False [CDigit]) st) s1
             else if d = CHR ''s'' then parse_main (add_atom (Cls False [CSpace]) st) s1
             else if d = CHR ''S'' then parse_main (add_atom (Cls False [CNotSpace]) st) s1
             else if is_syntax_char d \<or> d = CHR ''/'' then parse_main (add_atom (Chr d) st) s1
             else None)
      else if ch = CHR ''$'' then parse_main (add_assertion Eol st) s
      else if is_syntax_char ch then None
      else parse_main (add_atom (Chr ch) st) s)"
| "parse_class st neg items [] = None"
| "parse_class st neg items (ch # s) =
     (if ch = CHR '']'' then parse_main (add_atom (Cls neg items) st) s
      else if ch = backslash then
        (case s of
           [] \<Rightarrow> None
         | d # s1 \<Rightarrow>
             if d = CHR ''d'' then parse_class st neg (items @ [CDigit]) s1
             else if d = CHR ''s'' then parse_class st neg (items @ [CSpace]) s1
             else if d = CHR ''S'' then parse_class st neg (items @ [CNotSpace]) s1
             else if is_syntax_char d \<or> d = CHR ''/'' \<or> d = CHR ''-''
               then parse_class st neg (items @ [CChar d]) s1
             else None)
      else if ch = CHR ''-'' then
        (case s of
           [] \<Rightarrow> None
         | d # s1 \<Rightarrow>
             if items = [] \<or> d = CHR '']'' then parse_class st neg (items @ [CChar ch]) s
             else None)
      else parse_class st neg (items @ [CChar ch]) s)"

definition parse_pattern :: "string \<Rightarrow> re option" where
  "parse_pattern src = parse_main (PState [] (Frame TopLevel [] []) 1 False) src"

text \<open>\<^verbatim>\<open>new RegExp(pattern, "gi")\<close>; \<open>None\<close> is the \<^verbatim>\<open>SyntaxError\<close>.\<close>

definition new_RegExp_gi :: "string \<Rightarrow> regexp option" where
  "new_RegExp_gi src =
     (case parse_pattern src of
        None \<Rightarrow> None
      | Some r \<Rightarrow> Some \<lparr>re_ast = r, flag_i = True, flag_g = True\<rparr>)"

section \<open>The archive normalizer: \<^verbatim>\<open>processZipFile\<close>\<close>

subsection \<open>Rewriting the references (lines 250 to 269)\<close>

text \<open>\<^verbatim>\<open>/[.*+?^${}()|[\]\\]/g\<close>\<close>

definition re_special :: regexp where
  "re_special = \<lparr>re_ast = Cls False (map CChar syntax_chars), flag_i = False, flag_g = True\<rparr>"

text \<open>\<^verbatim>\<open>filename.replace(/[.*+?^${}()|[\]\\]/g, '\\$&')\<close>\<close>

definition escapeFilename :: "string \<Rightarrow> string" where
  "escapeFilename filename = str_replace re_special (backslash # ''$&'') filename"

definition path_pattern :: "string \<Rightarrow> string" where
  \<open>path_pattern escapedFilename =
     ''(src|href)=["\']([^"\']*[/'' @ [backslash, backslash] @ ''])?'' @ escapedFilename @ ''["\']''\<close>

definition bare_pattern :: "string \<Rightarrow> string" where
  \<open>bare_pattern escapedFilename = ''(src|href)=["\']'' @ escapedFilename @ ''["\']''\<close>

definition replacement :: "string \<Rightarrow> string" where
  \<open>replacement dataUrl = ''$1="'' @ dataUrl @ ''"''\<close>

text \<open>
  One turn of \<^verbatim>\<open>assets.forEach\<close>: both patterns are built, then applied one
  after the other to the text so far. \<open>None\<close> is an exception thrown by
  \<^verbatim>\<open>new RegExp\<close>. The \<^verbatim>\<open>match\<close> of line 263 only feeds the log.
\<close>

definition inline_asset :: "string \<times> string \<Rightarrow> string \<Rightarrow> string option" where
  "inline_asset asset processedHtml =
     (let filename = fst asset; dataUrl = snd asset;
          escapedFilename = escapeFilename filename
      in case new_RegExp_gi (path_pattern escapedFilename) of
           None \<Rightarrow> None
         | Some pattern1 \<Rightarrow>
             (case new_RegExp_gi (bare_pattern escapedFilename) of
                None \<Rightarrow> None
              | Some pattern2 \<Rightarrow>
                  Some (str_replace pattern2 (replacement dataUrl)
                         (str_replace pattern1 (replacement dataUrl) processedHtml))))"

text \<open>
  The whole step; the asset map is a \<^verbatim>\<open>Map\<close>, which \<^verbatim>\<open>forEach\<close> visits in
  insertion order, so it is a list of pairs with distinct keys.
\<close>

fun inlineReferences :: "(string \<times> string) list \<Rightarrow> string \<Rightarrow> string option" where
  "inlineReferences [] processedHtml = Some processedHtml"
| "inlineReferences (asset # rest) processedHtml =
     (case inline_asset asset processedHtml of
        None \<Rightarrow> None
      | Some processedHtml' \<Rightarrow> inlineReferences rest processedHtml')"

subsection \<open>The archive\<close>

text \<open>
  What the program can observe of the archive: the entries in the order of
  \<^verbatim>\<open>Object.entries(contents.files)\<close>, each with its \<^verbatim>\<open>dir\<close> flag and with the
  outcome of \<^verbatim>\<open>async("text")\<close> and of \<^verbatim>\<open>async("blob")\<close> (\<open>None\<close> when the promise
  is rejected). \<^verbatim>\<open>FileReader.readAsDataURL\<close> is a parameter \<open>reader\<close>; it
  returns \<open>None\<close> when the reader fails, in which case \<^verbatim>\<open>onload\<close> is never
  called and the promise of lines 226 to 230 stays pending for ever.
\<close>

record blob =
  blob_type :: string
  blob_bytes :: string

record zipEntry =
  dir :: bool
  async_text :: "string option"
  async_blob :: "blob option"

datatype 'a completion = Done 'a | Thrown | Pending

record extraction =
  htmlFile :: "string option"
  htmlContent :: string
  assets :: "(string \<times> string) list"

text \<open>\<^verbatim>\<open>!htmlFile\<close>: \<^verbatim>\<open>null\<close> and the empty string are falsy.\<close>

fun no_file :: "string option \<Rightarrow> bool" where
  "no_file None = True"
| "no_file (Some f) = (f = [])"

text \<open>\<^verbatim>\<open>filename.split('/').pop() || filename\<close>\<close>

definition basename_of :: "string \<Rightarrow> string" where
  "basename_of filename =
     (let seg = rev (takeWhile (\<lambda>ch. ch \<noteq> CHR ''/'') (rev filename))
      in if seg = [] then filename else seg)"

text \<open>The \<^verbatim>\<open>else\<close> branch of the loop body, lines 210 to 235.\<close>

definition asset_step ::
  "(blob \<Rightarrow> string option) \<Rightarrow> string \<times> zipEntry \<Rightarrow> extraction \<Rightarrow> extraction completion" where
  "asset_step reader entry st =
     (let filename = fst entry; zipEntry = snd entry; basename = basename_of filename
      in if startsWith basename ''.'' \<or> startsWith basename ''__MACOSX'' then Done st
         else case async_blob zipEntry of
                None \<Rightarrow> Thrown
              | Some blob \<Rightarrow>
                  (let finalBlob = (if endsWith (toLowerCase basename) ''.svg''
                                    then blob\<lparr>blob_type := ''image/svg+xml''\<rparr> else blob)
                   in case reader finalBlob of
                        None \<Rightarrow> Pending
                      | Some dataUrl \<Rightarrow>
                          Done (st\<lparr>assets := AList.update basename dataUrl (assets st)\<rparr>)))"

text \<open>The loop of lines 203 to 236.\<close>

fun extract_loop ::
  "(blob \<Rightarrow> string option) \<Rightarrow> (string \<times> zipEntry) list \<Rightarrow> extraction \<Rightarrow> extraction completion" where
  "extract_loop reader [] st = Done st"
| "extract_loop reader (entry # rest) st =
     (if dir (snd entry) then extract_loop reader rest st
      else if endsWith (fst entry) ''.html'' \<and> no_file (htmlFile st) then
        (case async_text (snd entry) of
           None \<Rightarrow> Thrown
         | Some t \<Rightarrow> extract_loop reader rest (st\<lparr>htmlFile := Some (fst entry), htmlContent := t\<rparr>))
      else
        (case asset_step reader entry st of
           Done st' \<Rightarrow> extract_loop reader rest st'
         | Thrown \<Rightarrow> Thrown
         | Pending \<Rightarrow> Pending))"

definition initial_extraction :: extraction where
  "initial_extraction = \<lparr>htmlFile = None, htmlContent = [], assets = []\<rparr>"

text \<open>
  The asset handling alone, applied to every entry that is not a directory:
  what the loop does to the entries that follow the document.
\<close>

fun assets_only ::
  "(blob \<Rightarrow> string option) \<Rightarrow> (string \<times> zipEntry) list \<Rightarrow> extraction \<Rightarrow> extraction completion" where
  "assets_only reader [] st = Done st"
| "assets_only reader (entry # rest) st =
     (if dir (snd entry) then assets_only reader rest st
      else
        (case asset_step reader entry st of
           Done st' \<Rightarrow> assets_only reader rest st'
         | Thrown \<Rightarrow> Thrown
         | Pending \<Rightarrow> Pending))"

subsection \<open>The component state and \<^verbatim>\<open>processZipFile\<close>\<close>

record FormatContent = detected +
  html :: string
  fc_assets :: "(string \<times> string) list"

datatype toast = ToastError string | ToastSuccess string

text \<open>
  The React state \<^verbatim>\<open>formatContents\<close> (a \<^verbatim>\<open>Map\<close>, in insertion order) and
  \<^verbatim>\<open>selectedFormat\<close>, and the notices shown so far. \<^verbatim>\<open>processZipFile\<close> reads
  \<^verbatim>\<open>selectedFormat\<close> from its closure; the model takes it from the state the
  call starts in.
\<close>

record ui_state =
  formatContents :: "(string \<times> FormatContent) list"
  selectedFormat :: "string option"
  toasts :: "toast list"

record upload =
  upload_name :: string
  loadAsync :: "(string \<times> zipEntry) list option"

definition notify :: "toast \<Rightarrow> ui_state \<Rightarrow> ui_state" where
  "notify t st = st\<lparr>toasts := toasts st @ [t]\<rparr>"

text \<open>
  The body of the \<^verbatim>\<open>try\<close> block, lines 195 to 284. \<open>now\<close> is the value of
  \<^verbatim>\<open>Date.now()\<close>.
\<close>

definition try_block ::
  "(blob \<Rightarrow> string option) \<Rightarrow> nat \<Rightarrow> upload \<Rightarrow> ui_state \<Rightarrow> ui_state completion" where
  "try_block reader now file st =
     (case loadAsync file of
        None \<Rightarrow> Thrown
      | Some entries \<Rightarrow>
          (case extract_loop reader entries initial_extraction of
             Thrown \<Rightarrow> Thrown
           | Pending \<Rightarrow> Pending
           | Done ex \<Rightarrow>
               if no_file (htmlFile ex)
               then Done (notify (ToastError ''No HTML file found in the ZIP'') st)
               else
                 (case detectDimensions (htmlContent ex) (case htmlFile ex of Some f \<Rightarrow> f | None \<Rightarrow> []) of
                    None \<Rightarrow> Thrown
                  | Some d \<Rightarrow>
                      (case inlineReferences (assets ex) (htmlContent ex) of
                         None \<Rightarrow> Thrown
                       | Some processedHtml \<Rightarrow>
                           (let formatKey = name d @ ''_'' @ toString (Num now)
                            in Done (notify
                                 (ToastSuccess (name d @ '' loaded with ''
                                    @ toString (Num (length (assets ex))) @ '' assets!''))
                                 (st\<lparr>formatContents :=
                                       AList.update formatKey
                                         \<lparr>width = width d, height = height d, name = name d,
                                            html = processedHtml, fc_assets = assets ex\<rparr>
                                         (formatContents st),
                                     selectedFormat :=
                                       (if no_file (selectedFormat st) then Some formatKey
                                        else selectedFormat st)\<rparr>)))))))"

text \<open>
  \<^verbatim>\<open>processZipFile\<close>: the state after the call, or \<open>None\<close> when the call never
  completes.
\<close>

definition processZipFile ::
  "(blob \<Rightarrow> string option) \<Rightarrow> nat \<Rightarrow> upload \<Rightarrow> ui_state \<Rightarrow> ui_state option" where
  "processZipFile reader now file st =
     (if \<not> endsWith (upload_name file) ''.zip''
      then Some (notify (ToastError ''Please upload a ZIP file'') st)
      else case try_block reader now file st of
             Done st' \<Rightarrow> Some st'
           | Thrown \<Rightarrow> Some (notify (ToastError ''Failed to process ZIP file'') st)
           | Pending \<Rightarrow> None)"

subsection \<open>Example archives\<close>

text \<open>
  A reader for the examples: the data URL of a blob, with the standard base64
  alphabet and padding.
\<close>

definition b64_alphabet :: string where
  "b64_alphabet = ''ABCDEFGHIJKLMNOPQRSTUVWXYZabcdefghijklmnopqrstuvwxyz0123456789+/''"

definition b64_char :: "int \<Rightarrow> char" where
  "b64_char n = b64_alphabet ! nat (n mod 64)"

fun base64 :: "string \<Rightarrow> string" where
  "base64 [] = []"
| "base64 [a] =
     (let n = (of_char a :: int) * 65536
      in [b64_char (n div 262144), b64_char (n div 4096), CHR ''='', CHR ''=''])"
| "base64 [a, b] =
     (let n = (of_char a :: int) * 65536 + (of_char b :: int) * 256
      in [b64_char (n div 262144), b64_char (n div 4096), b64_char (n div 64), CHR ''=''])"
| "base64 (a # b # c # rest) =
     (let n = (of_char a :: int) * 65536 + (of_char b :: int) * 256 + (of_char c :: int)
      in [b64_char (n div 262144), b64_char (n div 4096), b64_char (n div 64), b64_char n]
           @ base64 rest)"

definition example_reader :: "blob \<Rightarrow> string option" where
  "example_reader b = Some (''data:'' @ blob_type b @ '';base64,'' @ base64 (blob_bytes b))"

definition file_entry :: "string \<Rightarrow> string \<Rightarrow> zipEntry" where
  "file_entry mime content =
     \<lparr>dir = False, async_text = Some content,
      async_blob = Some \<lparr>blob_type = mime, blob_bytes = content\<rparr>\<rparr>"

definition unreadable_entry :: zipEntry where
  "unreadable_entry = \<lparr>dir = False, async_text = None, async_blob = None\<rparr>"

definition empty_ui :: ui_state where
  "empty_ui = \<lparr>formatContents = [], selectedFormat = None, toasts = []\<rparr>"

definition img_doc :: string where
  \<open>img_doc = ''<img src="a.png">''\<close>

definition good_archive :: upload where
  "good_archive = \<lparr>upload_name = ''ad.zip'',
     loadAsync = Some [(''index.html'', file_entry [] img_doc), (''a.png'', file_entry ''image/png'' ''abc'')]\<rparr>"

definition not_an_archive :: upload where
  "not_an_archive = \<lparr>upload_name = ''ad.rar'', loadAsync = None\<rparr>"

definition corrupt_archive :: upload where
  "corrupt_archive = \<lparr>upload_name = ''ad.zip'', loadAsync = None\<rparr>"

definition no_document_archive :: upload where
  "no_document_archive = \<lparr>upload_name = ''ad.zip'',
     loadAsync = Some [(''a.png'', file_entry ''image/png'' ''abc'')]\<rparr>"

definition broken_asset_archive :: upload where
  "broken_asset_archive = \<lparr>upload_name = ''ad.zip'',
     loadAsync = Some [(''index.html'', file_entry [] img_doc), (''a.png'', unreadable_entry),
                       (''b.png'', file_entry ''image/png'' ''abc'')]\<rparr>"

definition is_hidden :: "string \<Rightarrow> bool" where
  "is_hidden filename =
     (startsWith (basename_of filename) ''.'' \<or> startsWith (basename_of filename) ''__MACOSX'')"

definition not_document :: "string \<times> zipEntry \<Rightarrow> bool" where
  "not_document entry = (dir (snd entry) \<or> \<not> endsWith (fst entry) ''.html'')"

definition dir_entry :: zipEntry where
  "dir_entry = \<lparr>dir = True, async_text = None, async_blob = None\<rparr>"

definition index_key :: string where
  "index_key = ''index (800'' @ [mult_sign] @ ''600)_0''"

definition failing_reader :: "blob \<Rightarrow> string option" where
  "failing_reader b = None"

definition unread_asset_archive :: upload where
  "unread_asset_archive = \<lparr>upload_name = ''ad.zip'',
     loadAsync = Some [(''index.html'', file_entry [] img_doc), (''a.png'', file_entry ''image/png'' ''abc'')]\<rparr>"

definition loaded_ui :: ui_state where
  "loaded_ui =
     \<lparr>formatContents =
             [(index_key,
               \<lparr>width = Num 800, height = Num 600, name = ''index (800'' @ [mult_sign] @ ''600)'',
                  html = ''<img src='' @ [dquote] @ ''data:image/png;base64,YWJj'' @ [dquote] @ ''>'',
                  fc_assets = [(''a.png'', ''data:image/png;base64,YWJj'')]\<rparr>)],
           selectedFormat = Some index_key,
           toasts = [ToastSuccess (''index (800'' @ [mult_sign] @ ''600) loaded with 1 assets!'')]\<rparr>"

definition mixed_pre :: "(string \<times> zipEntry) list" where
  "mixed_pre = [(''img/'', dir_entry), (''a.png'', file_entry ''image/png'' ''abc'')]"

definition mixed_post :: "(string \<times> zipEntry) list" where
  "mixed_post = [(''sub/other.html'', file_entry ''text/html'' ''<p>''), (''b.svg'', file_entry [] ''<svg/>'')]"

definition mixed_final :: extraction where
  "mixed_final = \<lparr>htmlFile = Some ''index.html'', htmlContent = img_doc,
     assets = [(''a.png'', ''data:image/png;base64,YWJj''),
               (''other.html'', ''data:text/html;base64,PHA+''),
               (''b.svg'', ''data:image/svg+xml;base64,PHN2Zy8+'')]\<rparr>"

definition hidden_name :: string where
  "hidden_name = ''__MACOSX/._index.html''"

section \<open>The reference rewriting in the words of its description\<close>

text \<open>
  The patterns that \<^verbatim>\<open>new RegExp\<close> builds for a file name, written out: the
  file name stands in them as a sequence of literal characters.
\<close>

definition attr_group :: re where
  "attr_group = Group 1 (alts [seq (chrs ''src''), seq (chrs ''href'')])"

definition path_group :: re where
  "path_group = Opt (Group 2 (seq [Star True cls_not_quote, Cls False [CChar CHR ''/'', CChar backslash]]))"

definition path_re :: "string \<Rightarrow> re" where
  "path_re filename =
     seq ([attr_group, Chr CHR ''='', cls_quote, path_group] @ chrs filename @ [cls_quote])"

definition bare_re :: "string \<Rightarrow> re" where
  "bare_re filename = seq ([attr_group, Chr CHR ''='', cls_quote] @ chrs filename @ [cls_quote])"

definition esc_char :: "char \<Rightarrow> string" where
  "esc_char ch = (if is_syntax_char ch then [backslash, ch] else [ch])"

text \<open>Equality up to letter case, quotes and path separators.\<close>

definition ci_eq :: "string \<Rightarrow> string \<Rightarrow> bool" where
  "ci_eq u v = (map toUpperChar u = map toUpperChar v)"

definition is_quote :: "char \<Rightarrow> bool" where
  "is_quote ch = (ch = dquote \<or> ch = squote)"

definition is_sep :: "char \<Rightarrow> bool" where
  "is_sep ch = (ch = CHR ''/'' \<or> ch = backslash)"

definition quote_free :: "string \<Rightarrow> bool" where
  "quote_free s = list_all (\<lambda>ch. \<not> is_quote ch) s"

text \<open>The attribute name at the front of a text: \<^verbatim>\<open>src\<close> or \<^verbatim>\<open>href\<close> in any letter case.\<close>

definition attr_at :: "string \<Rightarrow> string option" where
  "attr_at s =
     (if ci_eq (take 3 s) ''src'' then Some (take 3 s)
      else if ci_eq (take 4 s) ''href'' then Some (take 4 s)
      else None)"

text \<open>
  An attribute value names the file: it is the basename up to letter case, or,
  when paths are allowed, some text that ends in \<^verbatim>\<open>/\<close> or \<^verbatim>\<open>\\<close> followed by the
  basename up to letter case.
\<close>

definition value_names :: "bool \<Rightarrow> string \<Rightarrow> string \<Rightarrow> bool" where
  "value_names withPath filename v =
     (ci_eq v filename
      \<or> (withPath \<and> length filename < length v
           \<and> ci_eq (drop (length v - length filename) v) filename
           \<and> is_sep (v ! (length v - length filename - 1))))"

text \<open>
  A reference at the front of a text: the attribute name, \<^verbatim>\<open>=\<close>, a quote, a value
  without quotes that names the file, and a quote. The result is the attribute
  name as written and the text after the closing quote.
\<close>

definition ref_at :: "bool \<Rightarrow> string \<Rightarrow> string \<Rightarrow> (string \<times> string) option" where
  "ref_at withPath filename s =
     (case attr_at s of
        None \<Rightarrow> None
      | Some a \<Rightarrow>
          (case drop (length a) s of
             e # q # rest \<Rightarrow>
               if e = CHR ''='' \<and> is_quote q then
                 (case dropWhile (\<lambda>ch. \<not> is_quote ch) rest of
                    [] \<Rightarrow> None
                  | q' # rest' \<Rightarrow>
                      if value_names withPath filename (takeWhile (\<lambda>ch. \<not> is_quote ch) rest)
                      then Some (a, rest') else None)
               else None
           | _ \<Rightarrow> None))"

text \<open>
  One pass over a text, from left to right: a reference is replaced by the
  attribute name as written, \<^verbatim>\<open>="\<close>, the data URL and \<^verbatim>\<open>"\<close>, and the pass goes on
  after it; any other character is copied.
\<close>

function rewrite_refs :: "bool \<Rightarrow> string \<Rightarrow> string \<Rightarrow> string \<Rightarrow> string" where
  "rewrite_refs withPath filename dataUrl [] = []"
| "rewrite_refs withPath filename dataUrl (x # xs) =
     (case ref_at withPath filename (x # xs) of
        Some (a, rest) \<Rightarrow>
          a @ [CHR ''='', dquote] @ dataUrl @ [dquote] @ rewrite_refs withPath filename dataUrl rest
      | None \<Rightarrow> x # rewrite_refs withPath filename dataUrl xs)"
  by pat_completeness auto
termination
proof -
  have shorter: "length rest < length s" if "ref_at withPath filename s = Some (a, rest)"
    for withPath filename s a rest
  proof -
    from that obtain a' where a: "attr_at s = Some a'"
      by (auto simp: ref_at_def split: option.splits)
    from that a obtain e q r where d: "drop (length a') s = e # q # r"
      by (auto simp: ref_at_def split: list.splits if_splits)
    from that a d obtain q' where r: "dropWhile (\<lambda>ch. \<not> is_quote ch) r = q' # rest"
      by (auto simp: ref_at_def split: list.splits if_splits)
    have "length rest < length (dropWhile (\<lambda>ch. \<not> is_quote ch) r)" by (simp add: r)
    also have "\<dots> \<le> length r" by (rule length_dropWhile_le)
    also have "\<dots> < length (drop (length a') s)" by (simp add: d)
    also have "\<dots> \<le> length s" by simp
    finally show ?thesis .
  qed
  show ?thesis
    by (relation "measure (\<lambda>(withPath, filename, dataUrl, s). length s)")
      (auto dest: shorter)
qed

text \<open>
  The whole step in these words: for each asset in turn, a pass with paths and
  then a pass without.
\<close>

fun rewrite_all :: "(string \<times> string) list \<Rightarrow> string \<Rightarrow> string" where
  "rewrite_all [] s = s"
| "rewrite_all (asset # rest) s =
     rewrite_all rest
       (rewrite_refs False (fst asset) (snd asset) (rewrite_refs True (fst asset) (snd asset) s))"

text \<open>The basename, up to letter case, followed by a quote, somewhere in a text.\<close>

definition quoted_prefix :: "string \<Rightarrow> string \<Rightarrow> bool" where
  "quoted_prefix filename s =
     (length filename < length s \<and> ci_eq (take (length filename) s) filename
      \<and> is_quote (s ! length filename))"

fun basename_occurs :: "string \<Rightarrow> string \<Rightarrow> bool" where
  "basename_occurs filename [] = False"
| "basename_occurs filename (x # xs) =
     (quoted_prefix filename (x # xs) \<or> basename_occurs filename xs)"
section \<open>Notions used in the proofs on the reference rewriting\<close>

text \<open>A character that has no other letter case.\<close>

definition caseless :: "char \<Rightarrow> bool" where
  "caseless ch = (\<not> is_lower_char ch \<and> \<not> is_upper_char ch)"

text \<open>
  The text that the optional path group can take: nothing, or characters other
  than quotes followed by one \<^verbatim>\<open>/\<close> or \<^verbatim>\<open>\\\<close>.
\<close>

definition path_ok :: "string \<Rightarrow> bool" where
  "path_ok g = (g = [] \<or> (quote_free (butlast g) \<and> is_sep (last g)))"

text \<open>
  The texts that a pattern of a file name matches at the front of \<open>s\<close>, with the
  attribute name \<open>a\<close> as written and the text \<open>s'\<close> that follows the match.
\<close>

definition ref_shape :: "bool \<Rightarrow> string \<Rightarrow> string \<Rightarrow> string \<Rightarrow> string \<Rightarrow> bool" where
  "ref_shape withPath filename s a s' =
     (\<exists>q g v q'. s = a @ CHR ''='' # q # g @ v @ q' # s'
        \<and> (ci_eq a ''src'' \<or> ci_eq a ''href'') \<and> is_quote q
        \<and> (if withPath then path_ok g else g = [])
        \<and> ci_eq v filename \<and> is_quote q')"

text \<open>The first successful run of a pattern at the front of a text, if any.\<close>

definition match_at :: "bool \<Rightarrow> re \<Rightarrow> string \<Rightarrow> (string \<times> captures) option" where
  "match_at ic r s = matcher ic r s no_captures (\<lambda>s' c. Some (s', c))"

text \<open>The pattern of a pass: with the optional path group or without.\<close>

definition ref_re :: "bool \<Rightarrow> string \<Rightarrow> re" where
  "ref_re withPath filename = (if withPath then path_re filename else bare_re filename)"

text \<open>Example inputs of the reference rewriting.\<close>

definition meta_name :: string where
  "meta_name = ''logo(1).png''"

definition meta_url :: string where
  "meta_url = ''data:image/png;base64,QUJD''"

definition meta_doc :: string where
  \<open>meta_doc = ''<img src="img/logo(1).png">''\<close>

definition meta_inlined :: string where
  \<open>meta_inlined = ''<img src="data:image/png;base64,QUJD">''\<close>

definition other_doc :: string where
  \<open>other_doc = ''<img src="photo.png">''\<close>

definition upper_doc :: string where
  \<open>upper_doc = ''<img src="LOGO.PNG">''\<close>

definition logo_url :: string where
  "logo_url = ''data:application/octet-stream;base64,QUJD''"

definition logo_inlined :: string where
  \<open>logo_inlined = ''<img src="data:application/octet-stream;base64,QUJD">''\<close>




section \<open>Properties of the matcher\<close>

text \<open>
  The equations of the matcher by cases on the input; evaluation uses them, so
  that a continuation is unfolded only once it is applied to an input.
\<close>

lemma matcher_code [code]:
  "matcher ic (Chr ch) [] c k = None"
  "matcher ic (Chr ch) (x # xs) c k = (if Canonicalize ic x = Canonicalize ic ch then k xs c else None)"
  "matcher ic (Cls neg items) [] c k = None"
  "matcher ic (Cls neg items) (x # xs) c k =
     (if CharacterSetMatcher ic neg items x then k xs c else None)"
  "matcher ic (Seq a b) [] c k = matcher ic a [] c (\<lambda>s' c'. matcher ic b s' c' k)"
  "matcher ic (Seq a b) (x # xs) c k = matcher ic a (x # xs) c (\<lambda>s' c'. matcher ic b s' c' k)"
  "matcher ic (Alt a b) [] c k =
     (case matcher ic a [] c k of Some r \<Rightarrow> Some r | None \<Rightarrow> matcher ic b [] c k)"
  "matcher ic (Alt a b) (x # xs) c k =
     (case matcher ic a (x # xs) c k of Some r \<Rightarrow> Some r | None \<Rightarrow> matcher ic b (x # xs) c k)"
  "matcher ic (Star True a) [] c k =
     (case matcher ic a [] (clear_captures a c) (\<lambda>s' c'. None) of
        Some r \<Rightarrow> Some r
      | None \<Rightarrow> k [] c)"
  "matcher ic (Star True a) (x # xs) c k =
     (case matcher ic a (x # xs) (clear_captures a c)
             (\<lambda>s' c'. if length s' < length (x # xs) then matcher ic (Star True a) s' c' k else None) of
        Some r \<Rightarrow> Some r
      | None \<Rightarrow> k (x # xs) c)"
  "matcher ic (Star False a) [] c k =
     (case k [] c of
        Some r \<Rightarrow> Some r
      | None \<Rightarrow> matcher ic a [] (clear_captures a c) (\<lambda>s' c'. None))"
  "matcher ic (Star False a) (x # xs) c k =
     (case k (x # xs) c of
        Some r \<Rightarrow> Some r
      | None \<Rightarrow> matcher ic a (x # xs) (clear_captures a c)
             (\<lambda>s' c'. if length s' < length (x # xs) then matcher ic (Star False a) s' c' k else None))"
  "matcher ic (Plus a) [] c k =
     matcher ic a [] (clear_captures a c) (\<lambda>s' c'. matcher ic (Star True a) s' c' k)"
  "matcher ic (Plus a) (x # xs) c k =
     matcher ic a (x # xs) (clear_captures a c) (\<lambda>s' c'. matcher ic (Star True a) s' c' k)"
  "matcher ic (Opt a) [] c k =
     (case matcher ic a [] (clear_captures a c) (\<lambda>s' c'. None) of
        Some r \<Rightarrow> Some r
      | None \<Rightarrow> k [] c)"
  "matcher ic (Opt a) (x # xs) c k =
     (case matcher ic a (x # xs) (clear_captures a c)
             (\<lambda>s' c'. if length s' < length (x # xs) then k s' c' else None) of
        Some r \<Rightarrow> Some r
      | None \<Rightarrow> k (x # xs) c)"
  "matcher ic (Group n a) [] c k = matcher ic a [] c (\<lambda>s' c'. k s' (c'(n \<mapsto> [])))"
  "matcher ic (Group n a) (x # xs) c k =
     matcher ic a (x # xs) c
       (\<lambda>s' c'. k s' (c'(n \<mapsto> take (length (x # xs) - length s') (x # xs))))"
  "matcher ic Eps [] c k = k [] c"
  "matcher ic Eps (x # xs) c k = k (x # xs) c"
  "matcher ic Eol [] c k = k [] c"
  "matcher ic Eol (x # xs) c k = None"
  by (simp_all split: option.splits)

lemma matcher_sound:
  "matcher ic r s c k = Some res \<Longrightarrow> \<exists>s' c'. reach ic r s c s' c' \<and> k s' c' = Some res"
proof (induction ic r s c k arbitrary: res rule: matcher.induct)
  case (1 ic a s c k)
  then show ?case by (auto split: list.splits if_splits intro: reach.intros)
next
  case (2 ic neg items s c k)
  then show ?case by (auto split: list.splits if_splits intro: reach.intros)
next
  case (3 ic a b s c k)
  from 3(3) have "matcher ic a s c (\<lambda>s' c'. matcher ic b s' c' k) = Some res" by simp
  from 3(2)[OF this] obtain s' c' where a: "reach ic a s c s' c'" "matcher ic b s' c' k = Some res"
    by blast
  from 3(1)[OF a(2)] obtain s'' c'' where "reach ic b s' c' s'' c''" "k s'' c'' = Some res" by blast
  with a show ?case by (blast intro: reach.intros)
next
  case (4 ic a b s c k)
  show ?case
  proof (cases "matcher ic a s c k")
    case None
    with 4(3) have "matcher ic b s c k = Some res" by simp
    from 4(2)[OF None this] show ?thesis by (blast intro: reach.intros)
  next
    case (Some r)
    with 4(3) have "r = res" by simp
    with 4(1) Some show ?thesis by (blast intro: reach.intros)
  qed
next
  case (5 ic a s c k)
  show ?case
  proof (cases "matcher ic a s (clear_captures a c)
             (\<lambda>s' c'. if length s' < length s then matcher ic (Star True a) s' c' k else None)")
    case None
    with 5(3) show ?thesis by (auto intro: reach.intros)
  next
    case (Some r)
    with 5(3) have r: "r = res" by simp
    from 5(2)[OF Some] obtain s' c' where
      a: "reach ic a s (clear_captures a c) s' c'"
         "(if length s' < length s then matcher ic (Star True a) s' c' k else None) = Some r"
      by blast
    then have l: "length s' < length s" and b: "matcher ic (Star True a) s' c' k = Some r"
      by (auto split: if_splits)
    from 5(1)[OF l b] obtain s'' c'' where "reach ic (Star True a) s' c' s'' c''" "k s'' c'' = Some r"
      by blast
    with a l r show ?thesis by (blast intro: reach.intros)
  qed
next
  case (6 ic a s c k)
  show ?case
  proof (cases "k s c")
    case (Some r)
    with 6(3) show ?thesis by (auto intro: reach.intros)
  next
    case None
    with 6(3) have m: "matcher ic a s (clear_captures a c)
             (\<lambda>s' c'. if length s' < length s then matcher ic (Star False a) s' c' k else None) = Some res"
      by simp
    from 6(2)[OF None m] obtain s' c' where
      a: "reach ic a s (clear_captures a c) s' c'"
         "(if length s' < length s then matcher ic (Star False a) s' c' k else None) = Some res"
      by blast
    then have l: "length s' < length s" and b: "matcher ic (Star False a) s' c' k = Some res"
      by (auto split: if_splits)
    from 6(1)[OF None l b] obtain s'' c'' where
      "reach ic (Star False a) s' c' s'' c''" "k s'' c'' = Some res" by blast
    with a l show ?thesis by (blast intro: reach.intros)
  qed
next
  case (7 ic a s c k)
  from 7(3) have "matcher ic a s (clear_captures a c) (\<lambda>s' c'. matcher ic (Star True a) s' c' k) = Some res"
    by simp
  from 7(2)[OF this] obtain s' c' where
    a: "reach ic a s (clear_captures a c) s' c'" "matcher ic (Star True a) s' c' k = Some res" by blast
  from 7(1)[OF a(2)] obtain s'' c'' where
    "reach ic (Star True a) s' c' s'' c''" "k s'' c'' = Some res" by blast
  with a show ?case by (blast intro: reach.intros)
next
  case (8 ic a s c k)
  show ?case
  proof (cases "matcher ic a s (clear_captures a c)
             (\<lambda>s' c'. if length s' < length s then k s' c' else None)")
    case None
    with 8(2) show ?thesis by (auto intro: reach.intros)
  next
    case (Some r)
    with 8(2) have r: "r = res" by simp
    from 8(1)[OF Some] obtain s' c' where
      a: "reach ic a s (clear_captures a c) s' c'"
         "(if length s' < length s then k s' c' else None) = Some r" by blast
    then have "length s' < length s" "k s' c' = Some r" by (auto split: if_splits)
    with a r show ?thesis by (blast intro: reach.intros)
  qed
next
  case (9 ic n a s c k)
  from 9(2) have "matcher ic a s c (\<lambda>s' c'. k s' (c'(n \<mapsto> take (length s - length s') s))) = Some res"
    by simp
  from 9(1)[OF this] show ?case by (blast intro: reach.intros)
next
  case (10 ic s c k)
  then show ?case by (auto intro: reach.intros)
next
  case (11 ic s c k)
  then show ?case by (auto split: if_splits intro: reach.intros)
qed

lemma matcher_complete:
  "reach ic r s c s' c' \<Longrightarrow> matcher ic r s c k = None \<Longrightarrow> k s' c' = None"
proof (induction arbitrary: k rule: reach.induct)
  case (reach_Seq ic a s c s1 c1 b s2 c2)
  from reach_Seq.prems have "matcher ic a s c (\<lambda>s' c'. matcher ic b s' c' k) = None" by simp
  from reach_Seq.IH(1)[OF this] have "matcher ic b s1 c1 k = None" .
  from reach_Seq.IH(2)[OF this] show ?case .
next
  case (reach_Star0 ic g a s c)
  then show ?case by (cases g) (auto split: option.splits)
next
  case (reach_StarStep ic a s c s1 c1 g s2 c2)
  show ?case
  proof (cases g)
    case True
    with reach_StarStep.prems have "matcher ic a s (clear_captures a c)
       (\<lambda>s' c'. if length s' < length s then matcher ic (Star True a) s' c' k else None) = None"
      by (auto split: option.splits)
    from reach_StarStep.IH(1)[OF this] reach_StarStep.hyps(2)
    have "matcher ic (Star True a) s1 c1 k = None" by simp
    with reach_StarStep.IH(2) True show ?thesis by simp
  next
    case False
    with reach_StarStep.prems have "matcher ic a s (clear_captures a c)
       (\<lambda>s' c'. if length s' < length s then matcher ic (Star False a) s' c' k else None) = None"
      by (auto split: option.splits)
    from reach_StarStep.IH(1)[OF this] reach_StarStep.hyps(2)
    have "matcher ic (Star False a) s1 c1 k = None" by simp
    with reach_StarStep.IH(2) False show ?thesis by simp
  qed
next
  case (reach_Plus ic a s c s1 c1 s2 c2)
  from reach_Plus.prems
  have "matcher ic a s (clear_captures a c) (\<lambda>s' c'. matcher ic (Star True a) s' c' k) = None"
    by simp
  from reach_Plus.IH(1)[OF this] have "matcher ic (Star True a) s1 c1 k = None" .
  from reach_Plus.IH(2)[OF this] show ?case .
next
  case (reach_Opt1 ic a s c s1 c1)
  from reach_Opt1.prems have "matcher ic a s (clear_captures a c)
       (\<lambda>s' c'. if length s' < length s then k s' c' else None) = None"
    by (auto split: option.splits)
  from reach_Opt1.IH[OF this] reach_Opt1.hyps(2) show ?case by simp
next
  case (reach_Group ic a s c s1 c1 n)
  from reach_Group.prems
  have "matcher ic a s c (\<lambda>s' c'. k s' (c'(n \<mapsto> take (length s - length s') s))) = None" by simp
  from reach_Group.IH[OF this] show ?case .
qed (auto split: option.splits if_splits)

lemma reach_caps:
  "reach ic r s c s' c' \<Longrightarrow>
     (\<forall>n\<in>sure r. c' n \<noteq> None) \<and> (\<forall>n. n \<notin> set (groups r) \<longrightarrow> c' n = c n)"
  by (induction rule: reach.induct) (auto simp: clear_captures_def)

lemma exec_loop_reach:
  "exec_loop ic r i s = Some mr \<Longrightarrow>
     \<exists>j s'. i \<le> index mr \<and> index mr = i + j \<and> j \<le> length s \<and>
       reach ic r (drop j s) no_captures s' (caps mr) \<and>
       matched mr = take (length (drop j s) - length s') (drop j s)"
proof (induction s arbitrary: i)
  case Nil
  then obtain s' c where m: "matcher ic r [] no_captures (\<lambda>s' c. Some (s', c)) = Some (s', c)"
    and mr: "mr = \<lparr>index = i, matched = [], caps = c\<rparr>"
    by (auto split: option.splits)
  from matcher_sound[OF m] have "reach ic r [] no_captures s' c" by auto
  with mr show ?case by (intro exI[of _ 0] exI[of _ s']) simp
next
  case (Cons x xs)
  show ?case
  proof (cases "matcher ic r (x # xs) no_captures (\<lambda>s' c. Some (s', c))")
    case None
    with Cons.prems have "exec_loop ic r (Suc i) xs = Some mr" by simp
    from Cons.IH[OF this] obtain j s' where
      "Suc i \<le> index mr" "index mr = Suc i + j" "j \<le> length xs"
      "reach ic r (drop j xs) no_captures s' (caps mr)"
      "matched mr = take (length (drop j xs) - length s') (drop j xs)" by blast
    then show ?thesis by (intro exI[of _ "Suc j"] exI[of _ s']) simp
  next
    case (Some a)
    obtain s' c where a: "a = (s', c)" by (cases a)
    with Some Cons.prems
    have mr: "mr = \<lparr>index = i, matched = take (length (x # xs) - length s') (x # xs), caps = c\<rparr>"
      by simp
    from matcher_sound[OF Some[unfolded a]] have "reach ic r (x # xs) no_captures s' c" by auto
    with mr show ?thesis by (intro exI[of _ 0] exI[of _ s']) simp
  qed
qed

lemma str_match_sure:
  assumes "str_match rx s = Some mr" and "n \<in> sure (re_ast rx)"
  shows "\<exists>v. caps mr n = Some v"
proof -
  from assms(1) obtain j s' where
    "reach (flag_i rx) (re_ast rx) (drop j s) no_captures s' (caps mr)"
    unfolding str_match_def by (blast dest: exec_loop_reach)
  from reach_caps[OF this] assms(2) show ?thesis by auto
qed

lemma sure_adSize: "1 \<in> sure (re_ast re_adSize)"
  by (simp add: re_adSize_def chrs_def cls_quote_def cls_space_def cls_not_quote_def)

lemma sure_viewport: "1 \<in> sure (re_ast re_viewport)"
  by (simp add: re_viewport_def chrs_def cls_quote_def cls_space_def cls_not_quote_def)

lemma sure_styleTag: "1 \<in> sure (re_ast re_styleTag)"
  by (simp add: re_styleTag_def chrs_def)

lemma sure_dataFormat: "1 \<in> sure (re_ast re_dataFormat)"
  by (simp add: re_dataFormat_def chrs_def cls_quote_def cls_not_quote_def)

lemma sure_title: "1 \<in> sure (re_ast re_title)"
  by (simp add: re_title_def chrs_def)

lemma sure_metaName: "1 \<in> sure (re_ast re_metaName)"
  by (simp add: re_metaName_def chrs_def cls_quote_def cls_space_def cls_not_quote_def)

lemma meta_content_tier_total:
  "1 \<in> sure (re_ast rx) \<Longrightarrow> \<exists>wh'. meta_content_tier rx h wh = Some wh'"
  unfolding meta_content_tier_def
  by (auto split: option.splits dest: str_match_sure)

lemma tier_styleTag_total: "\<exists>wh'. tier_styleTag h wh = Some wh'"
  unfolding tier_styleTag_def using sure_styleTag
  by (auto split: option.splits dest: str_match_sure simp: Let_def)

lemma tier_dataFormat_total: "\<exists>wh'. tier_dataFormat h wh = Some wh'"
  unfolding tier_dataFormat_def using sure_dataFormat
  by (auto split: option.splits dest: str_match_sure)

lemma if_unset_total: "(\<And>wh. \<exists>wh'. t wh = Some wh') \<Longrightarrow> \<exists>wh'. if_unset t wh = Some wh'"
  by (simp add: if_unset_def)

lemma tier_bodyStyle_total: "\<exists>wh'. tier_bodyStyle h wh = Some wh'"
  unfolding tier_bodyStyle_def by (simp split: option.splits)

lemma tier_htmlStyle_total: "\<exists>wh'. tier_htmlStyle h wh = Some wh'"
  unfolding tier_htmlStyle_def by (simp split: option.splits)

lemma tier_divStyle_total: "\<exists>wh'. tier_divStyle h wh = Some wh'"
  unfolding tier_divStyle_def by (simp split: option.splits)

lemma tier_comment_total: "\<exists>wh'. tier_comment h wh = Some wh'"
  unfolding tier_comment_def by (simp split: option.splits)

lemma tier_filename_total: "\<exists>wh'. tier_filename f wh = Some wh'"
  unfolding tier_filename_def by (simp split: option.splits)

lemma tier_adSize_total: "\<exists>wh'. tier_adSize h wh = Some wh'"
  unfolding tier_adSize_def by (rule meta_content_tier_total[OF sure_adSize])

lemma tier_viewport_total: "\<exists>wh'. tier_viewport h wh = Some wh'"
  unfolding tier_viewport_def by (rule meta_content_tier_total[OF sure_viewport])

lemma cascade_total: "\<exists>wh. cascade h f = Some wh"
proof -
  obtain wh1 where 1: "tier_adSize h (Num 0, Num 0) = Some wh1"
    using tier_adSize_total by blast
  obtain wh2 where 2: "if_unset (tier_viewport h) wh1 = Some wh2"
    using if_unset_total[of "tier_viewport h", OF tier_viewport_total] by blast
  obtain wh3 where 3: "if_unset (tier_bodyStyle h) wh2 = Some wh3"
    using if_unset_total[of "tier_bodyStyle h", OF tier_bodyStyle_total] by blast
  obtain wh4 where 4: "if_unset (tier_htmlStyle h) wh3 = Some wh4"
    using if_unset_total[of "tier_htmlStyle h", OF tier_htmlStyle_total] by blast
  obtain wh5 where 5: "if_unset (tier_styleTag h) wh4 = Some wh5"
    using if_unset_total[of "tier_styleTag h", OF tier_styleTag_total] by blast
  obtain wh6 where 6: "if_unset (tier_divStyle h) wh5 = Some wh6"
    using if_unset_total[of "tier_divStyle h", OF tier_divStyle_total] by blast
  obtain wh7 where 7: "if_unset (tier_comment h) wh6 = Some wh7"
    using if_unset_total[of "tier_comment h", OF tier_comment_total] by blast
  obtain wh8 where 8: "if_unset (tier_dataFormat h) wh7 = Some wh8"
    using if_unset_total[of "tier_dataFormat h", OF tier_dataFormat_total] by blast
  obtain wh9 where 9: "if_unset (tier_filename f) wh8 = Some wh9"
    using if_unset_total[of "tier_filename f", OF tier_filename_total] by blast
  show ?thesis unfolding cascade_def using 1 2 3 4 5 6 7 8 9 by simp
qed

lemma name_from_title_total: "\<exists>nm. name_from_title h = Some nm"
  unfolding name_from_title_def using sure_title
  by (auto split: option.splits dest: str_match_sure)

lemma name_from_meta_total: "\<exists>nm'. name_from_meta h nm = Some nm'"
  unfolding name_from_meta_def using sure_metaName
  by (auto split: option.splits dest: str_match_sure)

lemma detectDimensions_total:
  "\<exists>wh nm. cascade h f = Some wh \<and> 
     detectDimensions h f = Some \<lparr>width = fst (fallback wh), height = snd (fallback wh), name = nm\<rparr>"
proof -
  obtain wh where 1: "cascade h f = Some wh" using cascade_total by blast
  obtain nm1 where 2: "name_from_title h = Some nm1" using name_from_title_total by blast
  obtain nm2 where 3: "name_from_meta h nm1 = Some nm2" using name_from_meta_total by blast
  show ?thesis unfolding detectDimensions_def using 1 2 3 by (simp add: Let_def)
qed

section \<open>Properties of \<^verbatim>\<open>detectDimensions\<close>\<close>

lemma unset_init: "unset (Num 0, Num 0)"
  by (simp add: unset_def)

lemma cascade_run_tiers: "cascade h f = run_tiers (tiers h f) (Num 0, Num 0)"
  by (simp add: cascade_def tiers_def if_unset_def unset_init split: option.splits Option.bind_splits)

lemma run_tiers_append:
  "run_tiers (ts1 @ ts2) wh = (case run_tiers ts1 wh of None \<Rightarrow> None | Some wh' \<Rightarrow> run_tiers ts2 wh')"
  by (induction ts1 arbitrary: wh) (auto split: option.splits)

lemma run_tiers_set: "\<not> unset wh \<Longrightarrow> run_tiers ts wh = Some wh"
  by (induction ts) (auto simp: if_unset_def)

lemma run_tiers_nothing:
  "list_all (\<lambda>t. t (Num 0, Num 0) = Some (Num 0, Num 0)) ts \<Longrightarrow>
     run_tiers ts (Num 0, Num 0) = Some (Num 0, Num 0)"
  by (induction ts) (auto simp: if_unset_def unset_init)

lemma not_unset_positive: "\<not> unset wh \<longleftrightarrow> positive (fst wh) \<and> positive (snd wh)"
  by (cases wh; cases "fst wh"; cases "snd wh") (auto simp: unset_def)

lemma fallback_positive: "positive (fst (fallback wh)) \<and> positive (snd (fallback wh))"
  by (auto simp: fallback_def not_unset_positive[symmetric] unset_def)

lemma digits_800: "digits_of 800 = ''800''"
  by code_simp

lemma digits_600: "digits_of 600 = ''600''"
  by code_simp

text \<open>
  Claim C7, as amended. When no dimension detector yields anything, the width
  is 800 and the height 600, whatever the name. The name is exactly
  \<open>800\<times>600\<close> (with the multiplication sign) when, in addition, the document has
  no title that gives a name, no name meta tag that gives one, and the file
  name gives none: lines 145 to 156 take the name from the \<^verbatim>\<open>title\<close> tag and from
  the \<^verbatim>\<open>format-name\<close> or \<^verbatim>\<open>display-name\<close> meta tag before the file name is
  looked at. For every document and file name \<^verbatim>\<open>detectDimensions\<close> returns, with
  a positive width and a positive height.
\<close>

theorem default_dimensions_and_positive:
  "(no_detector_yields h f \<longrightarrow>
      (\<exists>nm. detectDimensions h f = Some \<lparr>width = Num 800, height = Num 600, name = nm\<rparr>))
   \<and> (no_detector_yields h f \<and> name_from_title h = Some [] \<and> name_from_meta h [] = Some []
      \<and> name_from_filename f [] = []
    \<longrightarrow> detectDimensions h f =
          Some \<lparr>width = Num 800, height = Num 600, name = ''800'' @ [mult_sign] @ ''600''\<rparr>)
   \<and> (\<exists>r. detectDimensions h f = Some r \<and> positive (width r) \<and> positive (height r))"
proof (intro conjI impI)
  assume a: "no_detector_yields h f"
  then have c: "cascade h f = Some (Num 0, Num 0)"
    by (simp add: cascade_run_tiers no_detector_yields_def run_tiers_nothing)
  from detectDimensions_total[of h f] obtain r where r: "detectDimensions h f = Some r" by blast
  with c have "width r = Num 800 \<and> height r = Num 600"
    by (auto simp: detectDimensions_def fallback_def unset_init split: Option.bind_splits)
  with r have "detectDimensions h f = Some \<lparr>width = Num 800, height = Num 600, name = name r\<rparr>"
    by (cases r) simp
  then show "\<exists>nm. detectDimensions h f = Some \<lparr>width = Num 800, height = Num 600, name = nm\<rparr>" ..
next
  assume a: "no_detector_yields h f \<and> name_from_title h = Some [] \<and> name_from_meta h [] = Some []
      \<and> name_from_filename f [] = []"
  then have "cascade h f = Some (Num 0, Num 0)"
    by (simp add: cascade_run_tiers no_detector_yields_def run_tiers_nothing)
  with a show "detectDimensions h f =
          Some \<lparr>width = Num 800, height = Num 600, name = ''800'' @ [mult_sign] @ ''600''\<rparr>"
    by (simp add: detectDimensions_def fallback_def unset_init name_with_dims_def digits_800 digits_600)
next
  from detectDimensions_total[of h f] fallback_positive
  show "\<exists>r. detectDimensions h f = Some r \<and> positive (width r) \<and> positive (height r)"
    by fastforce
qed

lemma plain_doc_no_signal: "no_detector_yields plain_doc ''.html''"
  by code_simp

lemma plain_doc_no_title: "name_from_title plain_doc = Some []"
  by code_simp

lemma plain_doc_no_meta: "name_from_meta plain_doc [] = Some []"
  by code_simp

lemma dot_html_no_name: "name_from_filename ''.html'' [] = []"
  by code_simp

theorem default_dimensions_and_positive_witness:
  "no_detector_yields plain_doc ''.html'' \<and> name_from_title plain_doc = Some []
   \<and> name_from_meta plain_doc [] = Some [] \<and> name_from_filename ''.html'' [] = []
   \<and> detectDimensions plain_doc ''.html'' =
          Some \<lparr>width = Num 800, height = Num 600, name = ''800'' @ [mult_sign] @ ''600''\<rparr>
   \<and> (\<exists>r. detectDimensions plain_doc ''.html'' = Some r \<and> positive (width r) \<and> positive (height r))"
  using default_dimensions_and_positive[of plain_doc "''.html''"]
    plain_doc_no_signal plain_doc_no_title plain_doc_no_meta dot_html_no_name
  by blast

text \<open>
  Claim C7 as stated fails: in this document no dimension detector yields
  anything and the file name \<^verbatim>\<open>.html\<close> gives no name, yet the name is taken from
  the title and is not \<open>800\<times>600\<close>.
\<close>

theorem title_names_default:
  "no_detector_yields title_doc ''.html'' \<and> name_from_filename ''.html'' [] = []
   \<and> detectDimensions title_doc ''.html'' =
        Some \<lparr>width = Num 800, height = Num 600, name = ''Foo (800'' @ [mult_sign] @ ''600)''\<rparr>"
  by code_simp

lemma width_320: "map_option (\<lambda>m. parseInt (caps m 1)) (str_match re_width ''width=320,height=480'') = Some (Num 320)"
  by code_simp

lemma height_480: "map_option (\<lambda>m. parseInt (caps m 1)) (str_match re_height ''width=320,height=480'') = Some (Num 480)"
  by code_simp

lemma width_300: "map_option (\<lambda>m. parseInt (caps m 1)) (str_match re_width ''width=300,height=250'') = Some (Num 300)"
  by code_simp

lemma height_250: "map_option (\<lambda>m. parseInt (caps m 1)) (str_match re_height ''width=300,height=250'') = Some (Num 250)"
  by code_simp

lemma meta_content_tier_320:
  "str_match rx h = Some m \<Longrightarrow> caps m 1 = Some ''width=320,height=480'' \<Longrightarrow>
     meta_content_tier rx h wh = Some (Num 320, Num 480)"
  using width_320 height_480 by (auto simp: meta_content_tier_def split: option.splits)

lemma meta_content_tier_300:
  "str_match rx h = Some m \<Longrightarrow> caps m 1 = Some ''width=300,height=250'' \<Longrightarrow>
     meta_content_tier rx h wh = Some (Num 300, Num 250)"
  using width_300 height_250 by (auto simp: meta_content_tier_def split: option.splits)

lemma cascade_after_adSize:
  "tier_adSize h (Num 0, Num 0) = Some wh \<Longrightarrow> \<not> unset wh \<Longrightarrow> cascade h f = Some wh"
  by (simp add: cascade_def if_unset_def)

lemma cascade_after_viewport:
  "tier_adSize h (Num 0, Num 0) = Some wh1 \<Longrightarrow> unset wh1 \<Longrightarrow> tier_viewport h wh1 = Some wh \<Longrightarrow>
     \<not> unset wh \<Longrightarrow> cascade h f = Some wh"
  by (simp add: cascade_def if_unset_def)

lemma detectDimensions_of_cascade:
  "cascade h f = Some wh \<Longrightarrow> \<not> unset wh \<Longrightarrow>
     \<exists>nm. detectDimensions h f = Some \<lparr>width = fst wh, height = snd wh, name = nm\<rparr>"
  using detectDimensions_total[of h f] by (auto simp: fallback_def)

text \<open>
  Claim C3. A document without an ad.size meta tag whose viewport meta tag has
  the content \<^verbatim>\<open>width=320,height=480\<close> gets width 320 and height 480; a document
  whose ad.size meta tag has the content \<^verbatim>\<open>width=300,height=250\<close> gets width 300
  and height 250 whatever its viewport meta tag says: the ad-size detector wins
  over the viewport detector.
\<close>

theorem adsize_before_viewport:
  "(str_match re_adSize h = None \<and> str_match re_viewport h = Some m
      \<and> caps m 1 = Some ''width=320,height=480''
    \<longrightarrow> (\<exists>nm. detectDimensions h f = Some \<lparr>width = Num 320, height = Num 480, name = nm\<rparr>))
   \<and> (str_match re_adSize h = Some a \<and> caps a 1 = Some ''width=300,height=250''
    \<longrightarrow> (\<exists>nm. detectDimensions h f = Some \<lparr>width = Num 300, height = Num 250, name = nm\<rparr>))"
proof (intro conjI impI)
  assume a: "str_match re_adSize h = None \<and> str_match re_viewport h = Some m
      \<and> caps m 1 = Some ''width=320,height=480''"
  then have 1: "tier_adSize h (Num 0, Num 0) = Some (Num 0, Num 0)"
    by (simp add: tier_adSize_def meta_content_tier_def)
  from a have 2: "tier_viewport h (Num 0, Num 0) = Some (Num 320, Num 480)"
    by (simp add: tier_viewport_def meta_content_tier_320)
  have "cascade h f = Some (Num 320, Num 480)"
    by (rule cascade_after_viewport[OF 1 unset_init 2]) (simp add: unset_def)
  from detectDimensions_of_cascade[OF this]
  show "\<exists>nm. detectDimensions h f = Some \<lparr>width = Num 320, height = Num 480, name = nm\<rparr>"
    by (simp add: unset_def)
next
  assume a: "str_match re_adSize h = Some a \<and> caps a 1 = Some ''width=300,height=250''"
  then have 1: "tier_adSize h (Num 0, Num 0) = Some (Num 300, Num 250)"
    by (simp add: tier_adSize_def meta_content_tier_300)
  have "cascade h f = Some (Num 300, Num 250)"
    by (rule cascade_after_adSize[OF 1]) (simp add: unset_def)
  from detectDimensions_of_cascade[OF this]
  show "\<exists>nm. detectDimensions h f = Some \<lparr>width = Num 300, height = Num 250, name = nm\<rparr>"
    by (simp add: unset_def)
qed

lemma viewport_doc_no_adSize: "str_match re_adSize viewport_doc = None"
  by code_simp

lemma viewport_doc_viewport:
  "map_option (\<lambda>m. caps m 1) (str_match re_viewport viewport_doc) = Some (Some ''width=320,height=480'')"
  by code_simp

lemma adsize_viewport_doc_adSize:
  "map_option (\<lambda>m. caps m 1) (str_match re_adSize adsize_viewport_doc) = Some (Some ''width=300,height=250'')"
  by code_simp

lemma adsize_viewport_doc_viewport:
  "map_option (\<lambda>m. caps m 1) (str_match re_viewport adsize_viewport_doc) = Some (Some ''width=320,height=480'')"
  by code_simp

theorem adsize_before_viewport_witness:
  "str_match re_adSize viewport_doc = None
   \<and> map_option (\<lambda>m. caps m 1) (str_match re_viewport viewport_doc) = Some (Some ''width=320,height=480'')
   \<and> (\<exists>nm. detectDimensions viewport_doc ''index.html'' =
          Some \<lparr>width = Num 320, height = Num 480, name = nm\<rparr>)
   \<and> map_option (\<lambda>m. caps m 1) (str_match re_adSize adsize_viewport_doc) = Some (Some ''width=300,height=250'')
   \<and> map_option (\<lambda>m. caps m 1) (str_match re_viewport adsize_viewport_doc) = Some (Some ''width=320,height=480'')
   \<and> (\<exists>nm. detectDimensions adsize_viewport_doc ''index.html'' =
          Some \<lparr>width = Num 300, height = Num 250, name = nm\<rparr>)"
proof -
  from viewport_doc_viewport obtain m where
    m: "str_match re_viewport viewport_doc = Some m" "caps m 1 = Some ''width=320,height=480''"
    by (cases "str_match re_viewport viewport_doc") auto
  from adsize_viewport_doc_adSize obtain a where
    a: "str_match re_adSize adsize_viewport_doc = Some a" "caps a 1 = Some ''width=300,height=250''"
    by (cases "str_match re_adSize adsize_viewport_doc") auto
  from adsize_before_viewport[of viewport_doc m "''index.html''"] viewport_doc_no_adSize m
  have 1: "\<exists>nm. detectDimensions viewport_doc ''index.html'' =
          Some \<lparr>width = Num 320, height = Num 480, name = nm\<rparr>" by blast
  from adsize_before_viewport[of adsize_viewport_doc _ "''index.html''" a] a
  have 2: "\<exists>nm. detectDimensions adsize_viewport_doc ''index.html'' =
          Some \<lparr>width = Num 300, height = Num 250, name = nm\<rparr>" by blast
  from 1 2 viewport_doc_no_adSize viewport_doc_viewport adsize_viewport_doc_adSize
    adsize_viewport_doc_viewport
  show ?thesis by blast
qed

lemma styleTag_partial:
  "run_tiers (take 5 (tiers partial_overwritten_doc ''a.html'')) (Num 0, Num 0) = Some (Num 300, Num 0)"
  by code_simp

lemma overwritten_result:
  "detectDimensions partial_overwritten_doc ''a.html'' =
     Some \<lparr>width = Num 100, height = Num 50, name = ''a (100'' @ [mult_sign] @ ''50)''\<rparr>"
  by code_simp

text \<open>
  Claim C4 as stated fails: in this document the style block gives the width
  300 alone, the cascade goes on, and the container tier then assigns both
  fields, so the width 300 is overwritten by 100 instead of being completed.
\<close>

theorem partial_width_overwritten:
  "run_tiers (take 5 (tiers partial_overwritten_doc ''a.html'')) (Num 0, Num 0) = Some (Num 300, Num 0)
   \<and> detectDimensions partial_overwritten_doc ''a.html'' =
     Some \<lparr>width = Num 100, height = Num 50, name = ''a (100'' @ [mult_sign] @ ''50)''\<rparr>"
  using styleTag_partial overwritten_result by simp

lemma keeps_meta: "keeps_or_overwrites (meta_content_tier rx h)"
  by (auto simp: keeps_or_overwrites_def meta_content_tier_def split: option.splits)

lemma keeps_tiers:
  "list_all keeps_or_overwrites
     [tier_adSize h, tier_viewport h, tier_bodyStyle h, tier_htmlStyle h, tier_divStyle h,
      tier_comment h, tier_dataFormat h, tier_filename f]"
proof -
  have 1: "keeps_or_overwrites (tier_adSize h)"
    using keeps_meta[of re_adSize h] by (simp add: keeps_or_overwrites_def tier_adSize_def)
  have 2: "keeps_or_overwrites (tier_viewport h)"
    using keeps_meta[of re_viewport h] by (simp add: keeps_or_overwrites_def tier_viewport_def)
  have 3: "keeps_or_overwrites (tier_bodyStyle h)"
    by (auto simp: keeps_or_overwrites_def tier_bodyStyle_def split: option.splits)
  have 4: "keeps_or_overwrites (tier_htmlStyle h)"
    by (auto simp: keeps_or_overwrites_def tier_htmlStyle_def split: option.splits)
  have 5: "keeps_or_overwrites (tier_divStyle h)"
    by (auto simp: keeps_or_overwrites_def tier_divStyle_def split: option.splits)
  have 6: "keeps_or_overwrites (tier_comment h)"
    by (auto simp: keeps_or_overwrites_def tier_comment_def split: option.splits)
  have 7: "keeps_or_overwrites (tier_dataFormat h)"
    by (auto simp: keeps_or_overwrites_def tier_dataFormat_def split: option.splits)
  have 8: "keeps_or_overwrites (tier_filename f)"
    by (auto simp: keeps_or_overwrites_def tier_filename_def split: option.splits)
  from 1 2 3 4 5 6 7 8 show ?thesis by simp
qed

lemma cascade_split:
  "run_tiers (take k (tiers h f)) (Num 0, Num 0) = Some wh \<Longrightarrow>
     cascade h f = run_tiers (drop k (tiers h f)) wh"
  using run_tiers_append[of "take k (tiers h f)" "drop k (tiers h f)" "(Num 0, Num 0)"]
  by (simp add: cascade_run_tiers)

text \<open>
  Claim C4, as amended. Let \<open>wh\<close> be the pair after the first \<open>k\<close> tiers. If
  it is not yet complete the cascade goes on from it with the remaining tiers,
  and if it is complete the cascade returns it: all lower tiers are skipped.
  Every tier other than the style-block tier either leaves the pair it is
  given or returns a result that does not depend on it, and the final default
  replaces an incomplete pair by 800 and 600; inside the style-block tier a
  selector step keeps the width or height for which it finds no rule.
\<close>

theorem partial_results_in_cascade:
  "run_tiers (take k (tiers h f)) (Num 0, Num 0) = Some wh \<Longrightarrow>
     (unset wh \<longrightarrow> cascade h f = run_tiers (drop k (tiers h f)) wh)
   \<and> (\<not> unset wh \<longrightarrow> cascade h f = Some wh)
   \<and> list_all keeps_or_overwrites
        [tier_adSize h, tier_viewport h, tier_bodyStyle h, tier_htmlStyle h, tier_divStyle h,
         tier_comment h, tier_dataFormat h, tier_filename f]
   \<and> (unset wh \<longrightarrow> fallback wh = (Num 800, Num 600))
   \<and> (str_match (css_rule_re sel ''width:'') css = None
        \<longrightarrow> fst (css_selector_dims sel css wh) = fst wh)
   \<and> (str_match (css_rule_re sel ''height:'') css = None
        \<longrightarrow> snd (css_selector_dims sel css wh) = snd wh)"
proof (intro conjI impI)
  assume a: "run_tiers (take k (tiers h f)) (Num 0, Num 0) = Some wh"
  show "cascade h f = run_tiers (drop k (tiers h f)) wh" by (rule cascade_split[OF a])
  show "cascade h f = Some wh" if "\<not> unset wh"
    using cascade_split[OF a] run_tiers_set[OF that] by simp
  show "list_all keeps_or_overwrites
        [tier_adSize h, tier_viewport h, tier_bodyStyle h, tier_htmlStyle h, tier_divStyle h,
         tier_comment h, tier_dataFormat h, tier_filename f]" by (rule keeps_tiers)
  show "fallback wh = (Num 800, Num 600)" if "unset wh" using that by (simp add: fallback_def)
  show "fst (css_selector_dims sel css wh) = fst wh"
    if "str_match (css_rule_re sel ''width:'') css = None"
    using that by (simp add: css_selector_dims_def Let_def)
  show "snd (css_selector_dims sel css wh) = snd wh"
    if "str_match (css_rule_re sel ''height:'') css = None"
    using that by (simp add: css_selector_dims_def Let_def)
qed

lemma overwritten_rest:
  "run_tiers (drop 5 (tiers partial_overwritten_doc ''a.html'')) (Num 300, Num 0) = Some (Num 100, Num 50)"
  by code_simp

lemma completed_body: "css_selector_dims ''body'' ''body{width:300px} html{height:250px}'' (Num 0, Num 0) = (Num 300, Num 0)"
  by code_simp

lemma completed_html_width: "str_match (css_rule_re ''html'' ''width:'') ''body{width:300px} html{height:250px}'' = None"
  by code_simp

lemma completed_html: "css_selector_dims ''html'' ''body{width:300px} html{height:250px}'' (Num 300, Num 0) = (Num 300, Num 250)"
  by code_simp

theorem partial_results_in_cascade_witness:
  "run_tiers (take 5 (tiers partial_overwritten_doc ''a.html'')) (Num 0, Num 0) = Some (Num 300, Num 0)
   \<and> unset (Num 300, Num 0)
   \<and> cascade partial_overwritten_doc ''a.html'' = Some (Num 100, Num 50)
   \<and> fallback (Num 300, Num 0) = (Num 800, Num 600)
   \<and> str_match (css_rule_re ''html'' ''width:'') ''body{width:300px} html{height:250px}'' = None
   \<and> css_selector_dims ''html'' ''body{width:300px} html{height:250px}'' (Num 300, Num 0)
        = (Num 300, Num 250)"
proof -
  have u: "unset (Num 300, Num 0)" by (simp add: unset_def)
  from partial_results_in_cascade[OF styleTag_partial, of "''html''" "''body{width:300px} html{height:250px}''"]
    u overwritten_rest completed_html_width completed_html styleTag_partial
  show ?thesis by simp
qed

section \<open>Properties of \<^verbatim>\<open>processZipFile\<close>\<close>

lemma notify_fields [simp]:
  "formatContents (notify t st) = formatContents st"
  "selectedFormat (notify t st) = selectedFormat st"
  "toasts (notify t st) = toasts st @ [t]"
  by (simp_all add: notify_def)

text \<open>
  Claim C9. An upload whose name does not end in \<^verbatim>\<open>.zip\<close>, an archive without a
  document entry, and an exception anywhere in the \<^verbatim>\<open>try\<close> block each leave
  \<^verbatim>\<open>formatContents\<close> and \<^verbatim>\<open>selectedFormat\<close> as they were and add one error
  notice; and whenever the call completes, either that is the case or loading,
  extraction, inference and rewriting have all completed and exactly one Bundle
  built from their results has been stored.
\<close>

theorem ingestion_all_or_nothing:
  "(\<not> endsWith (upload_name up) ''.zip'' \<longrightarrow>
      processZipFile reader now up st = Some (notify (ToastError ''Please upload a ZIP file'') st))
   \<and> (endsWith (upload_name up) ''.zip'' \<and> loadAsync up = Some entries
        \<and> extract_loop reader entries initial_extraction = Done ex \<and> no_file (htmlFile ex) \<longrightarrow>
      processZipFile reader now up st = Some (notify (ToastError ''No HTML file found in the ZIP'') st))
   \<and> (endsWith (upload_name up) ''.zip'' \<and> try_block reader now up st = Thrown \<longrightarrow>
      processZipFile reader now up st = Some (notify (ToastError ''Failed to process ZIP file'') st))
   \<and> (processZipFile reader now up st = Some st' \<longrightarrow>
        (formatContents st' = formatContents st \<and> selectedFormat st' = selectedFormat st
          \<and> (\<exists>msg. toasts st' = toasts st @ [ToastError msg]))
      \<or> (\<exists>entries ex f d processedHtml msg.
            loadAsync up = Some entries
          \<and> extract_loop reader entries initial_extraction = Done ex
          \<and> htmlFile ex = Some f
          \<and> detectDimensions (htmlContent ex) f = Some d
          \<and> inlineReferences (assets ex) (htmlContent ex) = Some processedHtml
          \<and> formatContents st' =
               AList.update (name d @ ''_'' @ toString (Num now))
                 \<lparr>width = width d, height = height d, name = name d,
                    html = processedHtml, fc_assets = assets ex\<rparr>
                 (formatContents st)
          \<and> toasts st' = toasts st @ [ToastSuccess msg]))"
proof (intro conjI impI)
  show "processZipFile reader now up st = Some (notify (ToastError ''Please upload a ZIP file'') st)"
    if "\<not> endsWith (upload_name up) ''.zip''"
    using that by (simp add: processZipFile_def)
  show "processZipFile reader now up st = Some (notify (ToastError ''No HTML file found in the ZIP'') st)"
    if "endsWith (upload_name up) ''.zip'' \<and> loadAsync up = Some entries
        \<and> extract_loop reader entries initial_extraction = Done ex \<and> no_file (htmlFile ex)"
    using that by (simp add: processZipFile_def try_block_def)
  show "processZipFile reader now up st = Some (notify (ToastError ''Failed to process ZIP file'') st)"
    if "endsWith (upload_name up) ''.zip'' \<and> try_block reader now up st = Thrown"
    using that by (simp add: processZipFile_def)
  show "(formatContents st' = formatContents st \<and> selectedFormat st' = selectedFormat st
          \<and> (\<exists>msg. toasts st' = toasts st @ [ToastError msg]))
      \<or> (\<exists>entries ex f d processedHtml msg.
            loadAsync up = Some entries
          \<and> extract_loop reader entries initial_extraction = Done ex
          \<and> htmlFile ex = Some f
          \<and> detectDimensions (htmlContent ex) f = Some d
          \<and> inlineReferences (assets ex) (htmlContent ex) = Some processedHtml
          \<and> formatContents st' =
               AList.update (name d @ ''_'' @ toString (Num now))
                 \<lparr>width = width d, height = height d, name = name d,
                    html = processedHtml, fc_assets = assets ex\<rparr>
                 (formatContents st)
          \<and> toasts st' = toasts st @ [ToastSuccess msg])"
    if a: "processZipFile reader now up st = Some st'"
  proof (cases "endsWith (upload_name up) ''.zip''")
    case False
    with a show ?thesis by (auto simp: processZipFile_def)
  next
    case True
    show ?thesis
    proof (cases "try_block reader now up st")
      case Thrown
      with a True show ?thesis by (auto simp: processZipFile_def)
    next
      case Pending
      with a True show ?thesis by (auto simp: processZipFile_def)
    next
      case (Done s)
      with a True have s: "s = st'" by (auto simp: processZipFile_def)
      from Done[unfolded s] show ?thesis
        unfolding try_block_def
        by (auto split: option.splits completion.splits if_splits simp: Let_def)
    qed
  qed
qed

lemma asset_step_hidden: "is_hidden (fst entry) \<Longrightarrow> asset_step reader entry st = Done st"
  by (simp add: asset_step_def is_hidden_def Let_def)

lemma asset_step_htmlFile:
  "asset_step reader entry st = Done st' \<Longrightarrow> htmlFile st' = htmlFile st \<and> htmlContent st' = htmlContent st"
  by (auto simp: asset_step_def Let_def split: if_splits option.splits)

lemma asset_step_shape:
  "asset_step reader entry st = Done st' \<Longrightarrow>
     (is_hidden (fst entry) \<and> st' = st)
     \<or> (\<not> is_hidden (fst entry)
          \<and> (\<exists>url. st' = st\<lparr>assets := AList.update (basename_of (fst entry)) url (assets st)\<rparr>))"
  by (auto simp: asset_step_def is_hidden_def Let_def split: if_splits option.splits)

lemma asset_step_keys:
  "asset_step reader entry st = Done st' \<Longrightarrow> fst ` set (assets st) \<subseteq> fst ` set (assets st')"
proof -
  assume "asset_step reader entry st = Done st'"
  from asset_step_shape[OF this] consider "st' = st"
    | url where "st' = st\<lparr>assets := AList.update (basename_of (fst entry)) url (assets st)\<rparr>"
    by blast
  then show ?thesis
  proof cases
    case 1
    then show ?thesis by simp
  next
    case 2
    then have "fst ` set (assets st') = insert (basename_of (fst entry)) (fst ` set (assets st))"
      by (simp add: dom_update)
    then show ?thesis by blast
  qed
qed

lemma asset_step_adds:
  "asset_step reader entry st = Done st' \<Longrightarrow> \<not> is_hidden (fst entry) \<Longrightarrow>
     basename_of (fst entry) \<in> fst ` set (assets st')"
  using asset_step_shape[of reader entry st st'] by (auto simp: dom_update)

lemma assets_only_htmlFile:
  "assets_only reader es st = Done ex \<Longrightarrow> htmlFile ex = htmlFile st \<and> htmlContent ex = htmlContent st"
proof (induction es arbitrary: st)
  case Nil
  then show ?case by simp
next
  case (Cons entry es)
  show ?case
  proof (cases "dir (snd entry)")
    case True
    with Cons show ?thesis by simp
  next
    case False
    with Cons.prems obtain st' where s: "asset_step reader entry st = Done st'"
      "assets_only reader es st' = Done ex"
      by (auto split: completion.splits)
    from Cons.IH[OF s(2)] asset_step_htmlFile[OF s(1)] show ?thesis by simp
  qed
qed

lemma assets_only_keys:
  "assets_only reader es st = Done ex \<Longrightarrow> fst ` set (assets st) \<subseteq> fst ` set (assets ex)"
proof (induction es arbitrary: st)
  case Nil
  then show ?case by simp
next
  case (Cons entry es)
  show ?case
  proof (cases "dir (snd entry)")
    case True
    with Cons show ?thesis by simp
  next
    case False
    with Cons.prems obtain st' where s: "asset_step reader entry st = Done st'"
      "assets_only reader es st' = Done ex"
      by (auto split: completion.splits)
    from Cons.IH[OF s(2)] asset_step_keys[OF s(1)] show ?thesis by blast
  qed
qed

lemma assets_only_member:
  "assets_only reader es st = Done ex \<Longrightarrow> entry \<in> set es \<Longrightarrow> \<not> dir (snd entry) \<Longrightarrow>
     \<not> is_hidden (fst entry) \<Longrightarrow> basename_of (fst entry) \<in> fst ` set (assets ex)"
proof (induction es arbitrary: st)
  case Nil
  then show ?case by simp
next
  case (Cons e es)
  show ?case
  proof (cases "dir (snd e)")
    case True
    with Cons show ?thesis by auto
  next
    case False
    with Cons.prems obtain st' where s: "asset_step reader e st = Done st'"
      "assets_only reader es st' = Done ex"
      by (auto split: completion.splits)
    show ?thesis
    proof (cases "entry = e")
      case True
      with asset_step_adds[OF s(1)] Cons.prems assets_only_keys[OF s(2)] show ?thesis by blast
    next
      case False
      with Cons.prems have "entry \<in> set es" by simp
      from Cons.IH[OF s(2) this Cons.prems(3,4)] show ?thesis .
    qed
  qed
qed

lemma extract_loop_append:
  "extract_loop reader (xs @ ys) st =
     (case extract_loop reader xs st of
        Done st' \<Rightarrow> extract_loop reader ys st' | Thrown \<Rightarrow> Thrown | Pending \<Rightarrow> Pending)"
  by (induction xs arbitrary: st) (auto split: option.splits completion.splits)

lemma extract_loop_no_document:
  "list_all not_document pre \<Longrightarrow> extract_loop reader pre st = Done st1 \<Longrightarrow>
     htmlFile st1 = htmlFile st \<and> htmlContent st1 = htmlContent st"
proof (induction pre arbitrary: st)
  case Nil
  then show ?case by simp
next
  case (Cons entry pre)
  show ?case
  proof (cases "dir (snd entry)")
    case True
    with Cons show ?thesis by simp
  next
    case False
    with Cons.prems have nh: "\<not> endsWith (fst entry) ''.html''" by (simp add: not_document_def)
    with False Cons.prems obtain st' where s: "asset_step reader entry st = Done st'"
      "extract_loop reader pre st' = Done st1"
      by (auto split: completion.splits)
    from Cons.prems have "list_all not_document pre" by simp
    from Cons.IH[OF this s(2)] asset_step_htmlFile[OF s(1)] show ?thesis by simp
  qed
qed

lemma extract_loop_after_document:
  "\<not> no_file (htmlFile st) \<Longrightarrow> extract_loop reader es st = assets_only reader es st"
proof (induction es arbitrary: st)
  case Nil
  then show ?case by simp
next
  case (Cons entry es)
  show ?case
  proof (cases "asset_step reader entry st")
    case (Done st')
    with asset_step_htmlFile[OF Done] Cons show ?thesis by simp
  qed (use Cons in simp_all)
qed

lemma endsWith_nonempty: "endsWith f ''.html'' \<Longrightarrow> f \<noteq> []"
  by (auto simp: endsWith_def)

lemma document_chosen:
  assumes "list_all not_document pre"
    and "extract_loop reader pre initial_extraction = Done st1"
    and "\<not> dir e" and "endsWith f ''.html''" and "async_text e = Some t"
  shows "extract_loop reader (pre @ (f, e) # post) initial_extraction =
           assets_only reader post (st1\<lparr>htmlFile := Some f, htmlContent := t\<rparr>)"
proof -
  from extract_loop_no_document[OF assms(1,2)] have "htmlFile st1 = None"
    by (simp add: initial_extraction_def)
  with assms have "extract_loop reader (pre @ (f, e) # post) initial_extraction =
      extract_loop reader post (st1\<lparr>htmlFile := Some f, htmlContent := t\<rparr>)"
    by (simp add: extract_loop_append)
  also have "\<dots> = assets_only reader post (st1\<lparr>htmlFile := Some f, htmlContent := t\<rparr>)"
    using endsWith_nonempty[OF assms(4)] by (intro extract_loop_after_document) simp
  finally show ?thesis .
qed

text \<open>
  Claim C8. Let \<open>(f, e)\<close> be the first entry, in iteration order, that is not a
  directory and whose name ends in \<^verbatim>\<open>.html\<close>. It becomes the document, and the
  entries after it, whether or not their names end in \<^verbatim>\<open>.html\<close>, all go through
  the asset handling and nothing else: the document stays the same, and when
  the loop completes every later file entry that the asset handling does not
  skip as hidden has its basename as a key of the asset map.
\<close>

theorem first_document_wins:
  assumes "list_all not_document pre"
    and "extract_loop reader pre initial_extraction = Done st1"
    and "\<not> dir e" and "endsWith f ''.html''" and "async_text e = Some t"
  shows "extract_loop reader (pre @ (f, e) # post) initial_extraction =
           assets_only reader post (st1\<lparr>htmlFile := Some f, htmlContent := t\<rparr>)
         \<and> (\<forall>ex. extract_loop reader (pre @ (f, e) # post) initial_extraction = Done ex \<longrightarrow>
               htmlFile ex = Some f \<and> htmlContent ex = t
               \<and> (\<forall>later\<in>set post. \<not> dir (snd later) \<and> \<not> is_hidden (fst later) \<longrightarrow>
                     basename_of (fst later) \<in> fst ` set (assets ex)))"
proof -
  have eq: "extract_loop reader (pre @ (f, e) # post) initial_extraction =
           assets_only reader post (st1\<lparr>htmlFile := Some f, htmlContent := t\<rparr>)"
    by (rule document_chosen[OF assms])
  show ?thesis
  proof (intro conjI allI impI ballI)
    show "extract_loop reader (pre @ (f, e) # post) initial_extraction =
           assets_only reader post (st1\<lparr>htmlFile := Some f, htmlContent := t\<rparr>)" by (rule eq)
  next
    fix ex assume "extract_loop reader (pre @ (f, e) # post) initial_extraction = Done ex"
    with eq have d: "assets_only reader post (st1\<lparr>htmlFile := Some f, htmlContent := t\<rparr>) = Done ex"
      by simp
    from assets_only_htmlFile[OF d] show "htmlFile ex = Some f" "htmlContent ex = t" by simp_all
    fix later assume "later \<in> set post" "\<not> dir (snd later) \<and> \<not> is_hidden (fst later)"
    with assets_only_member[OF d] show "basename_of (fst later) \<in> fst ` set (assets ex)" by blast
  qed
qed

text \<open>
  Claim C10. The skip rules are part of the asset handling only. An entry whose
  name ends in \<^verbatim>\<open>.html\<close> and whose basename begins with a dot or with
  \<^verbatim>\<open>__MACOSX\<close> is taken as the document when no document has been found before
  it, because the document test comes first; the asset handling, given the
  same entry, skips it.
\<close>

theorem hidden_document_accepted:
  assumes "list_all not_document pre"
    and "extract_loop reader pre initial_extraction = Done st1"
    and "\<not> dir e" and "endsWith f ''.html''" and "async_text e = Some t"
    and "is_hidden f"
  shows "extract_loop reader (pre @ [(f, e)]) initial_extraction =
           Done (st1\<lparr>htmlFile := Some f, htmlContent := t\<rparr>)
         \<and> asset_step reader (f, e) st = Done st"
  using document_chosen[OF assms(1-5), of "[]"] asset_step_hidden[of "(f, e)" reader st] assms(6)
  by simp

text \<open>
  Claim C5, as amended. When \<^verbatim>\<open>async("blob")\<close> is rejected for an asset entry
  that the loop reaches and does not skip, the exception leaves the loop and is
  caught at the archive boundary: the call ends with the notice
  \<^verbatim>\<open>Failed to process ZIP file\<close> and the state is otherwise unchanged, whatever the
  remaining entries are. When the blob is read but the file reader fails, the
  call never completes.
\<close>

theorem asset_failure_aborts_archive:
  assumes "endsWith (upload_name up) ''.zip''"
    and "loadAsync up = Some (pre @ (f, e) # post)"
    and "extract_loop reader pre initial_extraction = Done st1"
    and "\<not> dir e" and "\<not> (endsWith f ''.html'' \<and> no_file (htmlFile st1))"
    and "\<not> is_hidden f"
  shows "(async_blob e = None \<longrightarrow>
           processZipFile reader now up st =
             Some (notify (ToastError ''Failed to process ZIP file'') st))
         \<and> (async_blob e = Some b
              \<and> reader (if endsWith (toLowerCase (basename_of f)) ''.svg''
                         then b\<lparr>blob_type := ''image/svg+xml''\<rparr> else b) = None \<longrightarrow>
           processZipFile reader now up st = None)"
proof (intro conjI impI)
  assume "async_blob e = None"
  with assms(4-6) have "asset_step reader (f, e) st1 = Thrown"
    by (simp add: asset_step_def is_hidden_def Let_def)
  with assms(3-5) have "extract_loop reader (pre @ (f, e) # post) initial_extraction = Thrown"
    by (auto simp: extract_loop_append)
  with assms(1,2) show "processZipFile reader now up st =
             Some (notify (ToastError ''Failed to process ZIP file'') st)"
    by (simp add: processZipFile_def try_block_def)
next
  assume "async_blob e = Some b
              \<and> reader (if endsWith (toLowerCase (basename_of f)) ''.svg''
                         then b\<lparr>blob_type := ''image/svg+xml''\<rparr> else b) = None"
  with assms(4-6) have "asset_step reader (f, e) st1 = Pending"
    by (simp add: asset_step_def is_hidden_def Let_def)
  with assms(3-5) have "extract_loop reader (pre @ (f, e) # post) initial_extraction = Pending"
    by (auto simp: extract_loop_append)
  with assms(1,2) show "processZipFile reader now up st = None"
    by (simp add: processZipFile_def try_block_def)
qed

lemma good_archive_loaded: "processZipFile example_reader 0 good_archive empty_ui = Some loaded_ui"
  by code_simp

lemma not_an_archive_name: "\<not> endsWith (upload_name not_an_archive) ''.zip''"
  by code_simp

lemma no_document_extract:
  "extract_loop example_reader [(''a.png'', file_entry ''image/png'' ''abc'')] initial_extraction =
     Done \<lparr>htmlFile = None, htmlContent = [], assets = [(''a.png'', ''data:image/png;base64,YWJj'')]\<rparr>"
  by code_simp

lemma corrupt_archive_thrown: "try_block example_reader 0 corrupt_archive empty_ui = Thrown"
  by code_simp

lemma zip_name: "endsWith ''ad.zip'' ''.zip''"
  by code_simp

theorem ingestion_all_or_nothing_witness:
  "\<not> endsWith (upload_name not_an_archive) ''.zip''
   \<and> processZipFile example_reader 0 not_an_archive empty_ui =
       Some (notify (ToastError ''Please upload a ZIP file'') empty_ui)
   \<and> processZipFile example_reader 0 no_document_archive empty_ui =
       Some (notify (ToastError ''No HTML file found in the ZIP'') empty_ui)
   \<and> try_block example_reader 0 corrupt_archive empty_ui = Thrown
   \<and> processZipFile example_reader 0 corrupt_archive empty_ui =
       Some (notify (ToastError ''Failed to process ZIP file'') empty_ui)
   \<and> processZipFile example_reader 0 good_archive empty_ui = Some loaded_ui
   \<and> formatContents loaded_ui \<noteq> formatContents empty_ui
   \<and> (\<exists>entries ex f d processedHtml msg.
            loadAsync good_archive = Some entries
          \<and> extract_loop example_reader entries initial_extraction = Done ex
          \<and> htmlFile ex = Some f
          \<and> detectDimensions (htmlContent ex) f = Some d
          \<and> inlineReferences (assets ex) (htmlContent ex) = Some processedHtml
          \<and> formatContents loaded_ui =
               AList.update (name d @ ''_'' @ toString (Num 0))
                 \<lparr>width = width d, height = height d, name = name d,
                    html = processedHtml, fc_assets = assets ex\<rparr>
                 (formatContents empty_ui)
          \<and> toasts loaded_ui = toasts empty_ui @ [ToastSuccess msg])"
proof -
  note t1 = ingestion_all_or_nothing[where up = not_an_archive and reader = example_reader
      and now = 0 and st = empty_ui]
  note t2 = ingestion_all_or_nothing[where up = no_document_archive
      and entries = "[(''a.png'', file_entry ''image/png'' ''abc'')]" and reader = example_reader
      and ex = "\<lparr>htmlFile = None, htmlContent = [], assets = [(''a.png'', ''data:image/png;base64,YWJj'')]\<rparr>"
      and now = 0 and st = empty_ui]
  note t3 = ingestion_all_or_nothing[where up = corrupt_archive and reader = example_reader
      and now = 0 and st = empty_ui]
  note t4 = ingestion_all_or_nothing[where up = good_archive and reader = example_reader
      and now = 0 and st = empty_ui, THEN conjunct2,
      THEN conjunct2, THEN conjunct2, rule_format, OF good_archive_loaded]
  have 1: "processZipFile example_reader 0 not_an_archive empty_ui =
       Some (notify (ToastError ''Please upload a ZIP file'') empty_ui)"
    using t1 not_an_archive_name by blast
  have 2: "processZipFile example_reader 0 no_document_archive empty_ui =
       Some (notify (ToastError ''No HTML file found in the ZIP'') empty_ui)"
    using t2 no_document_extract zip_name by (simp add: no_document_archive_def)
  have 3: "processZipFile example_reader 0 corrupt_archive empty_ui =
       Some (notify (ToastError ''Failed to process ZIP file'') empty_ui)"
    using t3 corrupt_archive_thrown zip_name by (simp add: corrupt_archive_def)
  have ne: "formatContents loaded_ui \<noteq> formatContents empty_ui"
    by (simp add: empty_ui_def loaded_ui_def)
  from t4 ne have 4: "\<exists>entries ex f d processedHtml msg.
            loadAsync good_archive = Some entries
          \<and> extract_loop example_reader entries initial_extraction = Done ex
          \<and> htmlFile ex = Some f
          \<and> detectDimensions (htmlContent ex) f = Some d
          \<and> inlineReferences (assets ex) (htmlContent ex) = Some processedHtml
          \<and> formatContents loaded_ui =
               AList.update (name d @ ''_'' @ toString (Num 0))
                 \<lparr>width = width d, height = height d, name = name d,
                    html = processedHtml, fc_assets = assets ex\<rparr>
                 (formatContents empty_ui)
          \<and> toasts loaded_ui = toasts empty_ui @ [ToastSuccess msg]"
    by blast
  from 1 2 3 4 ne not_an_archive_name corrupt_archive_thrown good_archive_loaded
  show ?thesis by blast
qed

lemma mixed_pre_no_document: "list_all not_document mixed_pre"
  by code_simp

lemma mixed_pre_extract:
  "extract_loop example_reader mixed_pre initial_extraction =
     Done \<lparr>htmlFile = None, htmlContent = [], assets = [(''a.png'', ''data:image/png;base64,YWJj'')]\<rparr>"
  by code_simp

lemma mixed_extract:
  "extract_loop example_reader (mixed_pre @ (''index.html'', file_entry [] img_doc) # mixed_post)
     initial_extraction = Done mixed_final"
  by code_simp

lemma index_html: "endsWith ''index.html'' ''.html''"
  by code_simp

lemma other_html: "endsWith ''sub/other.html'' ''.html'' \<and> \<not> is_hidden ''sub/other.html''
    \<and> basename_of ''sub/other.html'' = ''other.html''"
  by code_simp

theorem first_document_wins_witness:
  "list_all not_document mixed_pre
   \<and> endsWith ''index.html'' ''.html'' \<and> endsWith ''sub/other.html'' ''.html''
   \<and> extract_loop example_reader (mixed_pre @ (''index.html'', file_entry [] img_doc) # mixed_post)
        initial_extraction = Done mixed_final
   \<and> htmlFile mixed_final = Some ''index.html'' \<and> htmlContent mixed_final = img_doc
   \<and> ''other.html'' \<in> fst ` set (assets mixed_final)"
proof -
  have e: "\<not> dir (file_entry [] img_doc)" "async_text (file_entry [] img_doc) = Some img_doc"
    by (simp_all add: file_entry_def)
  note t = first_document_wins[OF mixed_pre_no_document mixed_pre_extract e(1) index_html e(2),
      of mixed_post, THEN conjunct2, rule_format, OF mixed_extract]
  have m: "(''sub/other.html'', file_entry ''text/html'' ''<p>'') \<in> set mixed_post"
    by (simp add: mixed_post_def)
  have "\<not> dir (snd (''sub/other.html'', file_entry ''text/html'' ''<p>''))"
    by (simp add: file_entry_def)
  with t m other_html have "''other.html'' \<in> fst ` set (assets mixed_final)"
    by (metis fst_conv)
  with t mixed_pre_no_document index_html other_html mixed_extract show ?thesis by blast
qed

lemma hidden_name_html: "endsWith hidden_name ''.html''"
  by code_simp

lemma hidden_name_hidden: "is_hidden hidden_name"
  by code_simp

theorem hidden_document_accepted_witness:
  "endsWith hidden_name ''.html'' \<and> is_hidden hidden_name
   \<and> extract_loop example_reader [(hidden_name, file_entry [] img_doc)] initial_extraction =
        Done (initial_extraction\<lparr>htmlFile := Some hidden_name, htmlContent := img_doc\<rparr>)
   \<and> asset_step example_reader (hidden_name, file_entry [] img_doc) initial_extraction =
        Done initial_extraction"
proof -
  have e: "\<not> dir (file_entry [] img_doc)" "async_text (file_entry [] img_doc) = Some img_doc"
    by (simp_all add: file_entry_def)
  have p: "list_all not_document []" "extract_loop example_reader [] initial_extraction = Done initial_extraction"
    by simp_all
  from hidden_document_accepted[OF p e(1) hidden_name_html e(2) hidden_name_hidden, of initial_extraction]
    hidden_name_html hidden_name_hidden
  show ?thesis by simp
qed

text \<open>
  Claim C5 as stated fails: in this archive the entry \<^verbatim>\<open>a.png\<close> cannot be read;
  the call ends with the notice \<^verbatim>\<open>Failed to process ZIP file\<close> and stores no
  Bundle, although the document and the entry \<^verbatim>\<open>b.png\<close> are readable.
\<close>

theorem unreadable_asset_aborts:
  "processZipFile example_reader 0 broken_asset_archive empty_ui =
     Some \<lparr>formatContents = [], selectedFormat = None,
           toasts = [ToastError ''Failed to process ZIP file'']\<rparr>"
  by code_simp

lemma index_extract:
  "extract_loop reader [(''index.html'', file_entry [] img_doc)] initial_extraction =
     Done \<lparr>htmlFile = Some ''index.html'', htmlContent = img_doc, assets = []\<rparr>"
  using index_html by (simp add: file_entry_def initial_extraction_def)

lemma a_png: "\<not> endsWith ''a.png'' ''.html'' \<and> \<not> is_hidden ''a.png''
    \<and> \<not> endsWith (toLowerCase (basename_of ''a.png'')) ''.svg''"
  by code_simp

theorem asset_failure_aborts_archive_witness:
  "async_blob unreadable_entry = None
   \<and> processZipFile example_reader 0 broken_asset_archive empty_ui =
        Some (notify (ToastError ''Failed to process ZIP file'') empty_ui)
   \<and> failing_reader \<lparr>blob_type = ''image/png'', blob_bytes = ''abc''\<rparr> = None
   \<and> processZipFile failing_reader 0 unread_asset_archive empty_ui = None"
proof -
  have a: "endsWith (upload_name broken_asset_archive) ''.zip''"
    "endsWith (upload_name unread_asset_archive) ''.zip''"
    using zip_name by (simp_all add: broken_asset_archive_def unread_asset_archive_def)
  have l1: "loadAsync broken_asset_archive =
      Some ([(''index.html'', file_entry [] img_doc)] @ (''a.png'', unreadable_entry)
             # [(''b.png'', file_entry ''image/png'' ''abc'')])"
    by (simp add: broken_asset_archive_def)
  have l2: "loadAsync unread_asset_archive =
      Some ([(''index.html'', file_entry [] img_doc)] @ (''a.png'', file_entry ''image/png'' ''abc'') # [])"
    by (simp add: unread_asset_archive_def)
  have d: "\<not> dir unreadable_entry" "\<not> dir (file_entry ''image/png'' ''abc'')"
    by (simp_all add: unreadable_entry_def file_entry_def)
  have n: "\<not> (endsWith ''a.png'' ''.html''
      \<and> no_file (htmlFile \<lparr>htmlFile = Some ''index.html'', htmlContent = img_doc, assets = []\<rparr>))"
    by simp
  have h: "\<not> is_hidden ''a.png''" using a_png by simp
  have u: "async_blob unreadable_entry = None" by (simp add: unreadable_entry_def)
  have f: "failing_reader \<lparr>blob_type = ''image/png'', blob_bytes = ''abc''\<rparr> = None"
    by (simp add: failing_reader_def)
  from asset_failure_aborts_archive[OF a(1) l1 index_extract d(1) n h,
      where reader = example_reader and now = 0 and st = empty_ui] u
  have 1: "processZipFile example_reader 0 broken_asset_archive empty_ui =
        Some (notify (ToastError ''Failed to process ZIP file'') empty_ui)" by simp
  from asset_failure_aborts_archive[OF a(2) l2 index_extract d(2) n h,
      where reader = failing_reader and now = 0 and st = empty_ui
        and b = "\<lparr>blob_type = ''image/png'', blob_bytes = ''abc''\<rparr>"] a_png f
  have 2: "processZipFile failing_reader 0 unread_asset_archive empty_ui = None"
    by (simp add: file_entry_def failing_reader_def)
  from 1 2 u f show ?thesis by simp
qed

section \<open>The reference rewriting\<close>

subsection \<open>Characters\<close>

lemma of_char_char_of_int: "0 \<le> k \<Longrightarrow> k < 256 \<Longrightarrow> (of_char (char_of (k::int)) :: int) = k"
  by (simp add: of_char_of)

lemma of_char_int_range: "0 \<le> (of_char ch :: int) \<and> (of_char ch :: int) < 256"
proof -
  have "(of_char ch :: int) = int (of_char ch :: nat)" by (simp add: of_nat_of_char)
  moreover have "(of_char ch :: nat) < 256" by (rule nat_of_char_less_256)
  ultimately show ?thesis by simp
qed

lemma upper_of_lower: "is_lower_char x \<Longrightarrow> is_upper_char (toUpperChar x)"
  using of_char_int_range[of x]
  by (auto simp: is_lower_char_def is_upper_char_def toUpperChar_def Let_def of_char_char_of_int)

lemma lower_of_upper: "is_upper_char x \<Longrightarrow> is_lower_char (toLowerChar x)"
  using of_char_int_range[of x]
  by (auto simp: is_lower_char_def is_upper_char_def toLowerChar_def Let_def of_char_char_of_int)

lemma not_lower_and_upper: "is_lower_char x \<Longrightarrow> \<not> is_upper_char x"
  by (auto simp: is_lower_char_def is_upper_char_def Let_def)

lemma toUpperChar_caseless: "caseless y \<Longrightarrow> toUpperChar x = y \<longleftrightarrow> x = y"
  using upper_of_lower[of x] by (auto simp: caseless_def toUpperChar_def)

lemma toLowerChar_caseless: "caseless y \<Longrightarrow> toLowerChar x = y \<longleftrightarrow> x = y"
  using lower_of_upper[of x] by (auto simp: caseless_def toLowerChar_def)

lemma toUpperChar_eq_caseless: "caseless y \<Longrightarrow> toUpperChar x = toUpperChar y \<longleftrightarrow> x = y"
  using toUpperChar_caseless[of y x] toUpperChar_caseless[of y y] by auto

lemma caseless_chars:
  "caseless dquote" "caseless squote" "caseless (CHR ''='')" "caseless (CHR ''/'')" "caseless backslash"
  by (simp_all add: caseless_def is_lower_char_def is_upper_char_def dquote_def squote_def backslash_def)

lemma caseless_quote: "is_quote ch \<Longrightarrow> caseless ch"
  using caseless_chars by (auto simp: is_quote_def)

lemma caseless_sep: "is_sep ch \<Longrightarrow> caseless ch"
  using caseless_chars by (auto simp: is_sep_def)

lemma csm_quote: "CharacterSetMatcher True False [CChar dquote, CChar squote] x \<longleftrightarrow> is_quote x"
  using toUpperChar_caseless[OF caseless_chars(1), of x] toUpperChar_caseless[OF caseless_chars(2), of x]
    toLowerChar_caseless[OF caseless_chars(1), of x] toLowerChar_caseless[OF caseless_chars(2), of x]
  by (auto simp: CharacterSetMatcher_def cls_has_def is_quote_def)

lemma csm_not_quote: "CharacterSetMatcher True True [CChar dquote, CChar squote] x \<longleftrightarrow> \<not> is_quote x"
  using csm_quote[of x] by (simp add: CharacterSetMatcher_def Let_def)

lemma csm_sep: "CharacterSetMatcher True False [CChar CHR ''/'', CChar backslash] x \<longleftrightarrow> is_sep x"
  using toUpperChar_caseless[OF caseless_chars(4), of x] toUpperChar_caseless[OF caseless_chars(5), of x]
    toLowerChar_caseless[OF caseless_chars(4), of x] toLowerChar_caseless[OF caseless_chars(5), of x]
  by (auto simp: CharacterSetMatcher_def cls_has_def is_sep_def)

lemma canon_eq: "Canonicalize True x = Canonicalize True a \<longleftrightarrow> toUpperChar x = toUpperChar a"
  by (simp add: Canonicalize_def)

lemma ci_eq_length: "ci_eq u v \<Longrightarrow> length u = length v"
  unfolding ci_eq_def by (rule map_eq_imp_length_eq)

lemma ci_eq_refl: "ci_eq u u"
  by (simp add: ci_eq_def)

lemma ci_eq_Nil [simp]: "ci_eq [] v \<longleftrightarrow> v = []" "ci_eq u [] \<longleftrightarrow> u = []"
  by (auto simp: ci_eq_def)

lemma ci_eq_Cons: "ci_eq (x # u) (y # v) \<longleftrightarrow> toUpperChar x = toUpperChar y \<and> ci_eq u v"
  by (simp add: ci_eq_def)

lemma ci_eq_Cons2: "ci_eq u (y # v) \<longleftrightarrow> (\<exists>x u'. u = x # u' \<and> toUpperChar x = toUpperChar y \<and> ci_eq u' v)"
  by (cases u) (auto simp: ci_eq_def)

lemma ci_eq_quote_free: "ci_eq u v \<Longrightarrow> quote_free v \<Longrightarrow> quote_free u"
proof (induction u arbitrary: v)
  case Nil
  then show ?case by (simp add: quote_free_def)
next
  case (Cons x u)
  then obtain y v' where v: "v = y # v'" by (cases v) auto
  with Cons.prems have e: "toUpperChar x = toUpperChar y" "ci_eq u v'" "\<not> is_quote y" "quote_free v'"
    by (auto simp: ci_eq_Cons quote_free_def)
  have "\<not> is_quote x"
  proof
    assume "is_quote x"
    from toUpperChar_eq_caseless[OF caseless_quote[OF this], of y] e(1) have "y = x" by simp
    with e(3) \<open>is_quote x\<close> show False by simp
  qed
  with Cons.IH[OF e(2,4)] show ?case by (simp add: quote_free_def)
qed

subsection \<open>The runs of a pattern, by constructor\<close>

lemma reach_Chr_iff:
  "reach ic (Chr a) s c s' c' \<longleftrightarrow> (\<exists>x. s = x # s' \<and> c' = c \<and> Canonicalize ic x = Canonicalize ic a)"
  by (subst reach.simps) auto

lemma reach_Cls_iff:
  "reach ic (Cls neg items) s c s' c' \<longleftrightarrow>
     (\<exists>x. s = x # s' \<and> c' = c \<and> CharacterSetMatcher ic neg items x)"
  by (subst reach.simps) auto

lemma reach_Seq_iff:
  "reach ic (Seq a b) s c s' c' \<longleftrightarrow> (\<exists>s1 c1. reach ic a s c s1 c1 \<and> reach ic b s1 c1 s' c')"
  by (subst reach.simps) auto

lemma reach_Alt_iff:
  "reach ic (Alt a b) s c s' c' \<longleftrightarrow> reach ic a s c s' c' \<or> reach ic b s c s' c'"
  by (subst reach.simps) auto

lemma reach_Opt_iff:
  "reach ic (Opt a) s c s' c' \<longleftrightarrow>
     (s' = s \<and> c' = c) \<or> (reach ic a s (clear_captures a c) s' c' \<and> length s' < length s)"
  by (subst reach.simps) auto

lemma reach_Group_iff:
  "reach ic (Group n a) s c s' c' \<longleftrightarrow>
     (\<exists>c1. reach ic a s c s' c1 \<and> c' = c1(n \<mapsto> take (length s - length s') s))"
  by (subst reach.simps) auto

lemma reach_Eps_iff: "reach ic Eps s c s' c' \<longleftrightarrow> s' = s \<and> c' = c"
  by (subst reach.simps) auto

lemma reach_suffix: "reach ic r s c s' c' \<Longrightarrow> \<exists>u. s = u @ s'"
  by (induction rule: reach.induct) auto

lemma reach_seq_Cons:
  "reach ic (seq (r # rs)) s c s' c' \<longleftrightarrow>
     (\<exists>s1 c1. reach ic r s c s1 c1 \<and> reach ic (seq rs) s1 c1 s' c')"
  by (cases rs) (auto simp: reach_Seq_iff reach_Eps_iff)

lemma reach_seq_append:
  "reach ic (seq (rs1 @ rs2)) s c s' c' \<longleftrightarrow>
     (\<exists>s1 c1. reach ic (seq rs1) s c s1 c1 \<and> reach ic (seq rs2) s1 c1 s' c')"
proof (induction rs1 arbitrary: s c)
  case Nil
  then show ?case by (simp add: reach_Eps_iff)
next
  case (Cons r rs1)
  have "reach ic (seq ((r # rs1) @ rs2)) s c s' c' \<longleftrightarrow>
      (\<exists>s1 c1. reach ic r s c s1 c1 \<and> reach ic (seq (rs1 @ rs2)) s1 c1 s' c')"
    using reach_seq_Cons[of ic r "rs1 @ rs2"] by simp
  also have "\<dots> \<longleftrightarrow> (\<exists>s1 c1. reach ic r s c s1 c1 \<and>
      (\<exists>s2 c2. reach ic (seq rs1) s1 c1 s2 c2 \<and> reach ic (seq rs2) s2 c2 s' c'))"
    using Cons.IH by simp
  also have "\<dots> \<longleftrightarrow> (\<exists>s2 c2. reach ic (seq (r # rs1)) s c s2 c2 \<and> reach ic (seq rs2) s2 c2 s' c')"
    using reach_seq_Cons[of ic r rs1] by blast
  finally show ?case .
qed

lemma reach_chrs:
  "reach True (seq (chrs p)) s c s' c' \<longleftrightarrow> (\<exists>v. s = v @ s' \<and> c' = c \<and> ci_eq v p)"
proof (induction p arbitrary: s)
  case Nil
  then show ?case by (auto simp: chrs_def reach_Eps_iff)
next
  case (Cons a p)
  have "reach True (seq (chrs (a # p))) s c s' c' \<longleftrightarrow>
      (\<exists>s1 c1. reach True (Chr a) s c s1 c1 \<and> reach True (seq (chrs p)) s1 c1 s' c')"
    using reach_seq_Cons[of True "Chr a" "chrs p"] by (simp add: chrs_def)
  also have "\<dots> \<longleftrightarrow> (\<exists>x s1. s = x # s1 \<and> toUpperChar x = toUpperChar a
      \<and> (\<exists>v. s1 = v @ s' \<and> c' = c \<and> ci_eq v p))"
    using Cons.IH by (auto simp: reach_Chr_iff canon_eq)
  also have "\<dots> \<longleftrightarrow> (\<exists>v. s = v @ s' \<and> c' = c \<and> ci_eq v (a # p))"
    by (auto simp: ci_eq_Cons2) 
  finally show ?case .
qed

lemma reach_star_cls:
  "reach ic r s c s' c' \<Longrightarrow> r = Star g (Cls neg items) \<Longrightarrow>
     c' = c \<and> (\<exists>u. s = u @ s' \<and> (\<forall>x\<in>set u. CharacterSetMatcher ic neg items x))"
proof (induction rule: reach.induct)
  case (reach_Star0 ic g a s c)
  then show ?case by simp
next
  case (reach_StarStep ic a s c s1 c1 g s2 c2)
  then have a: "a = Cls neg items" by simp
  with reach_StarStep.hyps(1) obtain x where x: "s = x # s1" "c1 = c" "CharacterSetMatcher ic neg items x"
    by (auto simp: reach_Cls_iff clear_captures_def)
  from reach_StarStep.IH(2) reach_StarStep.prems obtain u where
    "c2 = c1" "s1 = u @ s2" "\<forall>x\<in>set u. CharacterSetMatcher ic neg items x" by auto
  with x show ?case by (intro conjI exI[of _ "x # u"]) auto
qed simp_all

lemma reach_star_cls_intro:
  "\<forall>x\<in>set u. CharacterSetMatcher ic neg items x \<Longrightarrow> reach ic (Star g (Cls neg items)) (u @ t) c t c"
proof (induction u)
  case Nil
  then show ?case by (simp add: reach.reach_Star0)
next
  case (Cons x u)
  have "reach ic (Cls neg items) ((x # u) @ t) (clear_captures (Cls neg items) c) (u @ t) c"
    using Cons.prems by (simp add: reach_Cls_iff clear_captures_def)
  moreover have "length (u @ t) < length ((x # u) @ t)" by simp
  moreover have "reach ic (Star g (Cls neg items)) (u @ t) c t c" using Cons by simp
  ultimately show ?case by (rule reach.reach_StarStep)
qed

subsection \<open>The shape of a match\<close>

lemma reach_attr_group:
  "reach True attr_group s c s1 c1 \<longleftrightarrow>
     (\<exists>a. s = a @ s1 \<and> (ci_eq a ''src'' \<or> ci_eq a ''href'') \<and> c1 = c(1 \<mapsto> a))"
  by (auto simp: attr_group_def reach_Group_iff reach_Alt_iff reach_chrs)

lemma groups_path_body:
  "groups (Group 2 (seq [Star True cls_not_quote, Cls False [CChar CHR ''/'', CChar backslash]])) = [2]"
  by (simp add: cls_not_quote_def)

lemma reach_path_group:
  "reach True path_group s c s1 c1 \<Longrightarrow>
     c1 1 = c 1 \<and> (\<exists>g. s = g @ s1 \<and> path_ok g)"
proof -
  assume r: "reach True path_group s c s1 c1"
  let ?cc = "clear_captures (Group 2 (seq [Star True cls_not_quote, Cls False [CChar CHR ''/'', CChar backslash]])) c"
  from r consider "s1 = s" "c1 = c"
    | c2 s2 c3 where "reach True (Star True cls_not_quote) s ?cc s2 c3"
        "reach True (Cls False [CChar CHR ''/'', CChar backslash]) s2 c3 s1 c2"
        "c1 = c2(2 \<mapsto> take (length s - length s1) s)"
    unfolding path_group_def
    by (auto simp: reach_Opt_iff reach_Group_iff reach_Seq_iff)
  then show ?thesis
  proof cases
    case 1
    then show ?thesis by (simp add: path_ok_def)
  next
    case 2
    have st: "reach True (Star True (Cls True [CChar dquote, CChar squote])) s ?cc s2 c3"
      using 2(1) by (simp add: cls_not_quote_def)
    from reach_star_cls[OF st refl] obtain u where u: "c3 = ?cc" "s = u @ s2"
      "\<forall>x\<in>set u. \<not> is_quote x"
      by (auto simp: csm_not_quote)
    from 2(2) obtain sp where sp: "s2 = sp # s1" "c2 = c3" "is_sep sp"
      by (auto simp: reach_Cls_iff csm_sep)
    have "c1 1 = c 1" using 2(3) sp(2) u(1) by (simp add: clear_captures_def cls_not_quote_def)
    moreover have "s = (u @ [sp]) @ s1" using u sp by simp
    moreover have "path_ok (u @ [sp])" using u(3) sp(3)
      by (simp add: path_ok_def quote_free_def list_all_iff)
    ultimately show ?thesis by blast
  qed
qed

lemma reach_path_group_intro:
  "path_ok g \<Longrightarrow> \<exists>c1. reach True path_group (g @ s1) c s1 c1"
proof (cases "g = []")
  case True
  then show ?thesis by (auto simp: path_group_def reach_Opt_iff)
next
  case False
  assume "path_ok g"
  with False have g: "quote_free (butlast g)" "is_sep (last g)" by (auto simp: path_ok_def)
  let ?body = "Group 2 (seq [Star True cls_not_quote, Cls False [CChar CHR ''/'', CChar backslash]])"
  let ?cc = "clear_captures ?body c"
  from False have gs: "g @ s1 = butlast g @ (last g # s1)" by simp
  have "reach True (Star True cls_not_quote) (butlast g @ (last g # s1)) ?cc (last g # s1) ?cc"
    unfolding cls_not_quote_def
    using g(1) by (intro reach_star_cls_intro) (simp add: csm_not_quote quote_free_def list_all_iff)
  moreover have "reach True (Cls False [CChar CHR ''/'', CChar backslash]) (last g # s1) ?cc s1 ?cc"
    using g(2) by (simp add: reach_Cls_iff csm_sep)
  ultimately have "reach True (seq [Star True cls_not_quote, Cls False [CChar CHR ''/'', CChar backslash]])
      (g @ s1) ?cc s1 ?cc"
    unfolding gs by (auto simp: reach_Seq_iff)
  then have "reach True ?body (g @ s1) ?cc s1 (?cc(2 \<mapsto> take (length (g @ s1) - length s1) (g @ s1)))"
    by (rule reach.reach_Group)
  moreover have "length s1 < length (g @ s1)" using False by simp
  ultimately have "reach True (Opt ?body) (g @ s1) c s1
      (?cc(2 \<mapsto> take (length (g @ s1) - length s1) (g @ s1)))"
    by (rule reach.reach_Opt1)
  then show ?thesis unfolding path_group_def by blast
qed

lemma reach_quote: "reach True cls_quote s c s1 c1 \<longleftrightarrow> (\<exists>q. s = q # s1 \<and> c1 = c \<and> is_quote q)"
  by (simp add: cls_quote_def reach_Cls_iff csm_quote)

lemma reach_eq_sign:
  "reach True (Chr CHR ''='') s c s1 c1 \<longleftrightarrow> (s = CHR ''='' # s1 \<and> c1 = c)"
  using toUpperChar_eq_caseless[OF caseless_chars(3)]
  by (auto simp: reach_Chr_iff canon_eq)

lemma reach_tail:
  "reach True (seq (chrs b @ [cls_quote])) s c s' c' \<longleftrightarrow>
     (\<exists>v q'. s = v @ q' # s' \<and> c' = c \<and> ci_eq v b \<and> is_quote q')"
  by (auto simp: reach_seq_append reach_chrs reach_quote)

lemma path_re_unfold:
  "path_re b = seq ([attr_group, Chr CHR ''='', cls_quote, path_group] @ (chrs b @ [cls_quote]))"
  by (simp add: path_re_def)

lemma bare_re_unfold:
  "bare_re b = seq ([attr_group, Chr CHR ''='', cls_quote] @ (chrs b @ [cls_quote]))"
  by (simp add: bare_re_def)

lemma reach_path_re:
  assumes "reach True (path_re b) s c s' c'"
  shows "\<exists>a. ref_shape True b s a s' \<and> c' 1 = Some a"
proof -
  from assms obtain s1 c1 s2 c2 where
    1: "reach True (seq [attr_group, Chr CHR ''='', cls_quote, path_group]) s c s1 c1"
    and 2: "reach True (seq (chrs b @ [cls_quote])) s1 c1 s' c'"
    unfolding path_re_unfold reach_seq_append by blast
  from 1 obtain a sa q sq where a: "s = a @ sa" "ci_eq a ''src'' \<or> ci_eq a ''href''"
    and e: "sa = CHR ''='' # q # sq" "is_quote q"
    and p: "reach True path_group sq (c(1 \<mapsto> a)) s1 c1"
    by (auto simp: reach_Seq_iff reach_attr_group reach_eq_sign reach_quote)
  from reach_path_group[OF p] obtain g where g: "c1 1 = Some a" "sq = g @ s1" "path_ok g" by auto
  from 2 obtain v q' where v: "s1 = v @ q' # s'" "c' = c1" "ci_eq v b" "is_quote q'"
    unfolding reach_tail by blast
  have "ref_shape True b s a s'"
    unfolding ref_shape_def using a e g v by (intro exI[of _ q] exI[of _ g] exI[of _ v] exI[of _ q']) simp
  with g v show ?thesis by blast
qed

lemma reach_path_re_intro:
  assumes "ref_shape True b s a s'"
  shows "\<exists>c'. reach True (path_re b) s c s' c'"
proof -
  from assms obtain q g v q' where s: "s = a @ CHR ''='' # q # g @ v @ q' # s'"
    and a: "ci_eq a ''src'' \<or> ci_eq a ''href''" and q: "is_quote q" and g: "path_ok g"
    and v: "ci_eq v b" "is_quote q'"
    unfolding ref_shape_def by (auto split: if_splits)
  from reach_path_group_intro[OF g, of "v @ q' # s'" "c(1 \<mapsto> a)"] obtain c1 where
    p: "reach True path_group (g @ v @ q' # s') (c(1 \<mapsto> a)) (v @ q' # s') c1" by blast
  have r1: "reach True attr_group s c (CHR ''='' # q # g @ v @ q' # s') (c(1 \<mapsto> a))"
    unfolding reach_attr_group s using a by (intro exI[of _ a]) simp
  have r2: "reach True (Chr CHR ''='') (CHR ''='' # q # g @ v @ q' # s') (c(1 \<mapsto> a))
      (q # g @ v @ q' # s') (c(1 \<mapsto> a))"
    by (simp add: reach_eq_sign)
  have r3: "reach True cls_quote (q # g @ v @ q' # s') (c(1 \<mapsto> a)) (g @ v @ q' # s') (c(1 \<mapsto> a))"
    using q by (simp add: reach_quote)
  have "reach True (seq [attr_group, Chr CHR ''='', cls_quote, path_group]) s c (v @ q' # s') c1"
    using r1 r2 r3 p by (simp only: seq.simps reach_Seq_iff) blast
  moreover have "reach True (seq (chrs b @ [cls_quote])) (v @ q' # s') c1 s' c1"
    unfolding reach_tail using v by blast
  ultimately show ?thesis unfolding path_re_unfold reach_seq_append by blast
qed

lemma reach_bare_re:
  assumes "reach True (bare_re b) s c s' c'"
  shows "\<exists>a. ref_shape False b s a s' \<and> c' 1 = Some a"
proof -
  from assms obtain s1 c1 where
    1: "reach True (seq [attr_group, Chr CHR ''='', cls_quote]) s c s1 c1"
    and 2: "reach True (seq (chrs b @ [cls_quote])) s1 c1 s' c'"
    unfolding bare_re_unfold reach_seq_append by blast
  from 1 obtain a q where a: "s = a @ CHR ''='' # q # s1" "ci_eq a ''src'' \<or> ci_eq a ''href''"
    "is_quote q" "c1 = c(1 \<mapsto> a)"
    by (auto simp: reach_Seq_iff reach_attr_group reach_eq_sign reach_quote)
  from 2 obtain v q' where v: "s1 = v @ q' # s'" "c' = c1" "ci_eq v b" "is_quote q'"
    unfolding reach_tail by blast
  have "ref_shape False b s a s'"
    unfolding ref_shape_def using a v by (intro exI[of _ q] exI[of _ "[]"] exI[of _ v] exI[of _ q']) simp
  with a v show ?thesis by auto
qed

lemma reach_bare_re_intro:
  assumes "ref_shape False b s a s'"
  shows "\<exists>c'. reach True (bare_re b) s c s' c'"
proof -
  from assms obtain q v q' where s: "s = a @ CHR ''='' # q # v @ q' # s'"
    and a: "ci_eq a ''src'' \<or> ci_eq a ''href''" and q: "is_quote q"
    and v: "ci_eq v b" "is_quote q'"
    unfolding ref_shape_def by (auto split: if_splits)
  have r1: "reach True attr_group s c (CHR ''='' # q # v @ q' # s') (c(1 \<mapsto> a))"
    unfolding reach_attr_group s using a by (intro exI[of _ a]) simp
  have r2: "reach True (Chr CHR ''='') (CHR ''='' # q # v @ q' # s') (c(1 \<mapsto> a))
      (q # v @ q' # s') (c(1 \<mapsto> a))"
    by (simp add: reach_eq_sign)
  have r3: "reach True cls_quote (q # v @ q' # s') (c(1 \<mapsto> a)) (v @ q' # s') (c(1 \<mapsto> a))"
    using q by (simp add: reach_quote)
  have "reach True (seq [attr_group, Chr CHR ''='', cls_quote]) s c (v @ q' # s') (c(1 \<mapsto> a))"
    using r1 r2 r3 by (simp only: seq.simps reach_Seq_iff) blast
  moreover have "reach True (seq (chrs b @ [cls_quote])) (v @ q' # s') (c(1 \<mapsto> a)) s' (c(1 \<mapsto> a))"
    unfolding reach_tail using v by blast
  ultimately show ?thesis unfolding bare_re_unfold reach_seq_append by blast
qed

subsection \<open>A match is a reference of the description\<close>

lemma sep_not_quote: "is_sep ch \<Longrightarrow> \<not> is_quote ch"
  by (auto simp: is_sep_def is_quote_def dquote_def squote_def backslash_def)

lemma upper_h_s: "toUpperChar CHR ''h'' \<noteq> toUpperChar CHR ''s''"
  by code_simp

lemma quote_free_append [simp]: "quote_free (u @ v) \<longleftrightarrow> quote_free u \<and> quote_free v"
  by (simp add: quote_free_def)

lemma path_ok_quote_free: "path_ok g \<Longrightarrow> quote_free g"
proof (cases "g = []")
  case True
  then show ?thesis by (simp add: quote_free_def)
next
  case False
  assume "path_ok g"
  with False have "quote_free (butlast g)" "\<not> is_quote (last g)"
    by (auto simp: path_ok_def sep_not_quote)
  then have "quote_free (butlast g @ [last g])" by (simp add: quote_free_def)
  with False show ?thesis by simp
qed

lemma takeWhile_quote_free:
  "quote_free u \<Longrightarrow> is_quote q \<Longrightarrow> takeWhile (\<lambda>ch. \<not> is_quote ch) (u @ q # t) = u"
  by (induction u) (auto simp: quote_free_def)

lemma dropWhile_quote_free:
  "quote_free u \<Longrightarrow> is_quote q \<Longrightarrow> dropWhile (\<lambda>ch. \<not> is_quote ch) (u @ q # t) = q # t"
  by (induction u) (auto simp: quote_free_def)

lemma attr_at_intro:
  assumes "ci_eq a ''src'' \<or> ci_eq a ''href''"
  shows "attr_at (a @ t) = Some a"
proof -
  from assms consider "ci_eq a ''src''" | "ci_eq a ''href''" by blast
  then show ?thesis
  proof cases
    case 1
    from ci_eq_length[OF 1] have "length a = 3" by simp
    with 1 show ?thesis by (simp add: attr_at_def)
  next
    case 2
    from ci_eq_length[OF 2] have l: "length a = 4" by simp
    then obtain a1 a2 a3 a4 where a: "a = [a1, a2, a3, a4]"
      by (cases a; cases "tl a"; cases "tl (tl a)"; cases "tl (tl (tl a))") auto
    with 2 have "toUpperChar a1 = toUpperChar CHR ''h''" by (simp add: ci_eq_Cons)
    with upper_h_s have "\<not> ci_eq (take 3 (a @ t)) ''src''" by (simp add: a ci_eq_Cons)
    with 2 l show ?thesis by (simp add: attr_at_def)
  qed
qed

lemma attr_at_Some:
  assumes "attr_at s = Some a"
  shows "s = a @ drop (length a) s \<and> (ci_eq a ''src'' \<or> ci_eq a ''href'')"
proof -
  from assms consider "a = take 3 s" "ci_eq a ''src''" | "a = take 4 s" "ci_eq a ''href''"
    by (auto simp: attr_at_def split: if_splits)
  then show ?thesis
  proof cases
    case 1
    from ci_eq_length[OF 1(2)] have "length a = 3" by simp
    with 1 show ?thesis by (metis append_take_drop_id)
  next
    case 2
    from ci_eq_length[OF 2(2)] have "length a = 4" by simp
    with 2 show ?thesis by (metis append_take_drop_id)
  qed
qed

lemma ref_shape_imp_ref_at:
  assumes "quote_free b" and "ref_shape wp b s a s'"
  shows "ref_at wp b s = Some (a, s')"
proof -
  from assms(2) obtain q g v q' where s: "s = a @ CHR ''='' # q # g @ v @ q' # s'"
    and a: "ci_eq a ''src'' \<or> ci_eq a ''href''" and q: "is_quote q"
    and g: "if wp then path_ok g else g = []"
    and v: "ci_eq v b" "is_quote q'"
    unfolding ref_shape_def by blast
  have at: "attr_at s = Some a" unfolding s by (rule attr_at_intro[OF a])
  have dr: "drop (length a) s = CHR ''='' # q # (g @ v) @ q' # s'" by (simp add: s)
  have qg: "quote_free g"
  proof (cases wp)
    case True
    with g show ?thesis by (simp add: path_ok_quote_free)
  next
    case False
    with g show ?thesis by (simp add: quote_free_def)
  qed
  have qv: "quote_free v" by (rule ci_eq_quote_free[OF v(1) assms(1)])
  have qf: "quote_free (g @ v)" using qg qv by simp
  have tw: "takeWhile (\<lambda>ch. \<not> is_quote ch) ((g @ v) @ q' # s') = g @ v"
    by (rule takeWhile_quote_free[OF qf v(2)])
  have dw: "dropWhile (\<lambda>ch. \<not> is_quote ch) ((g @ v) @ q' # s') = q' # s'"
    by (rule dropWhile_quote_free[OF qf v(2)])
  have lv: "length v = length b" by (rule ci_eq_length[OF v(1)])
  have vn: "value_names wp b (g @ v)"
  proof (cases "g = []")
    case True
    with v show ?thesis by (simp add: value_names_def)
  next
    case False
    with g have wp: "wp" and sep: "is_sep (last g)" by (auto simp: path_ok_def split: if_splits)
    have "(g @ v) ! (length (g @ v) - length b - 1) = last g"
      using False lv by (simp add: nth_append last_conv_nth)
    with wp sep v False lv show ?thesis by (simp add: value_names_def)
  qed
  show ?thesis unfolding ref_at_def using at dr q tw dw vn by simp
qed

lemma dropWhile_head: "dropWhile P xs = y # ys \<Longrightarrow> \<not> P y"
  by (metis hd_dropWhile list.sel(1) list.distinct(1))

lemma ref_at_imp_ref_shape:
  assumes "ref_at wp b s = Some (a, s')"
  shows "ref_shape wp b s a s'"
proof -
  from assms obtain a0 where at: "attr_at s = Some a0"
    by (auto simp: ref_at_def split: option.splits)
  from assms at obtain e q rest where dr: "drop (length a0) s = e # q # rest"
    by (auto simp: ref_at_def split: list.splits if_splits)
  define X where "X = takeWhile (\<lambda>ch. \<not> is_quote ch) rest"
  from assms at dr obtain q' where dw: "dropWhile (\<lambda>ch. \<not> is_quote ch) rest = q' # s'"
    and e: "e = CHR ''=''" "is_quote q" "a0 = a"
    and vn: "value_names wp b X"
    unfolding X_def by (auto simp: ref_at_def split: list.splits if_splits)
  have rest: "rest = X @ q' # s'" unfolding X_def using dw by (metis takeWhile_dropWhile_id)
  have q': "is_quote q'" using dropWhile_head[OF dw] by simp
  have X: "quote_free X"
    unfolding X_def by (auto simp: quote_free_def list_all_iff dest: set_takeWhileD)
  from attr_at_Some[OF at] e dr have s: "s = a @ CHR ''='' # q # rest"
    and a: "ci_eq a ''src'' \<or> ci_eq a ''href''" by auto
  from vn consider "ci_eq X b"
    | "wp" "length b < length X" "ci_eq (drop (length X - length b) X) b"
      "is_sep (X ! (length X - length b - 1))"
    by (auto simp: value_names_def)
  then show ?thesis
  proof cases
    case 1
    have s2: "s = a @ CHR ''='' # q # [] @ X @ q' # s'" unfolding s rest by simp
    have p: "if wp then path_ok [] else [] = ([] :: string)" by (simp add: path_ok_def)
    show ?thesis unfolding ref_shape_def
      by (rule exI[of _ q], rule exI[of _ "[]"], rule exI[of _ X], rule exI[of _ q'])
        (use s2 a e(2) p 1 q' in blast)
  next
    case 2
    define k where "k = length X - length b"
    define g where "g = take k X"
    define v where "v = drop k X"
    have k: "0 < k" "k \<le> length X" using 2(2) by (simp_all add: k_def)
    have gne: "g \<noteq> []" using k by (auto simp: g_def)
    have "last g = X ! (k - 1)" using k gne by (simp add: g_def last_conv_nth)
    then have sep: "is_sep (last g)" using 2(4) by (simp add: k_def)
    have "quote_free g" using X by (auto simp: g_def quote_free_def list_all_iff dest: in_set_takeD)
    then have "quote_free (butlast g)"
      by (auto simp: quote_free_def list_all_iff dest: in_set_butlastD)
    with sep have pk: "path_ok g" by (simp add: path_ok_def)
    have "X = g @ v" by (simp add: g_def v_def)
    with s rest have s2: "s = a @ CHR ''='' # q # g @ v @ q' # s'" by simp
    have p: "if wp then path_ok g else g = []" using 2(1) pk by simp
    have vb: "ci_eq v b" using 2(3) by (simp add: v_def k_def)
    show ?thesis unfolding ref_shape_def
      by (rule exI[of _ q], rule exI[of _ g], rule exI[of _ v], rule exI[of _ q'])
        (use s2 a e(2) p vb q' in blast)
  qed
qed

lemma ref_shape_shorter: "ref_shape wp b s a s' \<Longrightarrow> length s' < length s"
  by (auto simp: ref_shape_def)

lemma ref_shape_attr: "ref_shape wp b s a s' \<Longrightarrow> s = a @ drop (length a) s"
  by (auto simp: ref_shape_def)

subsection \<open>Search and replacement\<close>

declare replace_all.simps [simp del] exec_loop.simps [simp del]

lemma match_at_None_iff:
  "match_at ic r s = None \<longleftrightarrow> (\<forall>s' c'. \<not> reach ic r s no_captures s' c')"
proof
  assume n: "match_at ic r s = None"
  show "\<forall>s' c'. \<not> reach ic r s no_captures s' c'"
  proof (intro allI notI)
    fix s' c' assume "reach ic r s no_captures s' c'"
    from matcher_complete[OF this n[unfolded match_at_def]] show False by simp
  qed
next
  assume a: "\<forall>s' c'. \<not> reach ic r s no_captures s' c'"
  show "match_at ic r s = None"
  proof (cases "match_at ic r s")
    case (Some p)
    from matcher_sound[OF Some[unfolded match_at_def]] a show ?thesis by blast
  qed simp
qed

lemma match_at_Some:
  "match_at ic r s = Some (s', c') \<Longrightarrow> reach ic r s no_captures s' c'"
  unfolding match_at_def by (drule matcher_sound) auto

lemma exec_loop_Cons:
  "exec_loop ic r i (x # xs) =
     (case match_at ic r (x # xs) of
        Some (s', c) \<Rightarrow>
          Some \<lparr>index = i, matched = take (length (x # xs) - length s') (x # xs), caps = c\<rparr>
      | None \<Rightarrow> exec_loop ic r (Suc i) xs)"
  by (simp add: match_at_def exec_loop.simps)

lemma exec_loop_Nil:
  "exec_loop ic r i [] =
     (case match_at ic r [] of
        Some (s', c) \<Rightarrow> Some \<lparr>index = i, matched = [], caps = c\<rparr>
      | None \<Rightarrow> None)"
  by (simp add: match_at_def exec_loop.simps)

lemma exec_loop_shift:
  "exec_loop ic r (Suc i) s =
     map_option (\<lambda>mr. mr\<lparr>index := Suc (index mr)\<rparr>) (exec_loop ic r i s)"
proof (induction s arbitrary: i)
  case Nil
  show ?case by (simp add: exec_loop_Nil split: option.splits)
next
  case (Cons x xs)
  show ?case
    unfolding exec_loop_Cons using Cons.IH by (simp split: option.splits)
qed

lemma replace_all_none:
  "exec_loop ic r 0 s = None \<Longrightarrow> replace_all ic r tmpl pre s = s"
  by (cases s) (simp_all add: replace_all.simps)

lemma replace_all_skip:
  assumes "match_at ic r (x # xs) = None"
  shows "replace_all ic r tmpl pre (x # xs) = x # replace_all ic r tmpl (pre @ [x]) xs"
proof -
  from assms have e: "exec_loop ic r 0 (x # xs) =
      map_option (\<lambda>mr. mr\<lparr>index := Suc (index mr)\<rparr>) (exec_loop ic r 0 xs)"
    by (simp only: exec_loop_Cons exec_loop_shift) simp
  show ?thesis
  proof (cases "exec_loop ic r 0 xs")
    case None
    with e have "exec_loop ic r 0 (x # xs) = None" by simp
    with None show ?thesis by (simp only: replace_all_none)
  next
    case (Some mr0)
    with e have e1: "exec_loop ic r 0 (x # xs) = Some (mr0\<lparr>index := Suc (index mr0)\<rparr>)" by simp
    show ?thesis
    proof (cases xs)
      case Nil
      with Some have "matched mr0 = []" "index mr0 = 0"
        by (auto simp: exec_loop_Nil split: option.splits)
      with Some e1 Nil show ?thesis
        by (simp only: replace_all.simps) (simp add: Let_def)
    next
      case (Cons y ys)
      from Some e1 show ?thesis
        unfolding Cons
        by (simp only: replace_all.simps) (simp add: Let_def split: list.splits)
    qed
  qed
qed

lemma replace_all_hit:
  assumes "match_at ic r (x # xs) = Some (s', c')" and "length s' < length (x # xs)"
  shows "replace_all ic r tmpl pre (x # xs) =
     GetSubstitution (take (length (x # xs) - length s') (x # xs)) pre s' c' (length (groups r)) tmpl
       @ replace_all ic r tmpl (pre @ take (length (x # xs) - length s') (x # xs)) s'"
proof -
  from reach_suffix[OF match_at_Some[OF assms(1)]] obtain u where u: "x # xs = u @ s'" by blast
  with assms(2) have ne: "u \<noteq> []" by auto
  have t: "take (length (x # xs) - length s') (x # xs) = u" by (simp add: u)
  have d: "drop (length u) (x # xs) = s'" by (simp add: u)
  have t2: "take (length u) (x # xs) = u" by (simp add: u)
  have e: "exec_loop ic r 0 (x # xs) = Some \<lparr>index = 0, matched = u, caps = c'\<rparr>"
    using assms(1) t by (simp only: exec_loop_Cons) simp
  show ?thesis
    unfolding t
    using e ne d t2 by (simp only: replace_all.simps) (simp add: Let_def)
qed

lemma replace_all_Nil:
  "match_at ic r [] = None \<Longrightarrow> replace_all ic r tmpl pre [] = []"
  by (simp add: exec_loop_Nil replace_all.simps)

subsection \<open>Substitution templates\<close>

lemma GetSubstitution_plain:
  "CHR ''$'' \<notin> set t \<Longrightarrow> GetSubstitution mt pre suf c m t = t"
  by (induction mt pre suf c m t rule: GetSubstitution.induct) auto

lemma digit_facts:
  "is_digit CHR ''1''" "\<not> is_digit CHR ''=''" "digit_value CHR ''1'' = 1"
  by code_simp+

lemma GetSubstitution_replacement:
  assumes "1 \<le> m" and "CHR ''$'' \<notin> set d"
  shows "GetSubstitution mt pre suf c m (replacement d) =
           capture_text c 1 @ [CHR ''='', dquote] @ d @ [dquote]"
proof -
  have p: "CHR ''$'' \<notin> set (CHR ''='' # dquote # d @ [dquote])"
    using assms(2) by (simp add: dquote_def)
  have "replacement d = CHR ''$'' # CHR ''1'' # CHR ''='' # dquote # d @ [dquote]"
    by (simp add: replacement_def dquote_def)
  then show ?thesis
    using assms(1) digit_facts GetSubstitution_plain[OF p, of mt pre suf c m] by simp
qed

lemma GetSubstitution_escape:
  "GetSubstitution [x] pre suf c m (backslash # ''$&'') = [backslash, x]"
  by (simp add: backslash_def)

subsection \<open>Escaping the file name\<close>

lemma cls_has_chars: "cls_has (map CChar l) x \<longleftrightarrow> x \<in> set l"
  by (induction l) (auto simp: cls_has_def)

lemma match_at_special:
  "match_at False (Cls False (map CChar syntax_chars)) (x # xs) =
     (if is_syntax_char x then Some (xs, no_captures) else None)"
  by (simp add: match_at_def CharacterSetMatcher_def cls_has_chars is_syntax_char_def)

lemma escape_replace_all:
  "replace_all False (Cls False (map CChar syntax_chars)) (backslash # ''$&'') pre s =
     concat (map esc_char s)"
proof (induction s arbitrary: pre)
  case Nil
  show ?case by (simp add: match_at_def replace_all_Nil)
next
  case (Cons x xs)
  show ?case
  proof (cases "is_syntax_char x")
    case True
    then have m: "match_at False (Cls False (map CChar syntax_chars)) (x # xs) = Some (xs, no_captures)"
      by (simp add: match_at_special)
    have l: "length xs < length (x # xs)" by simp
    have h: "take (length (x # xs) - length xs) (x # xs) = [x]" by simp
    note hit = replace_all_hit[OF m l, of "backslash # ''$&''" pre, unfolded h GetSubstitution_escape]
    show ?thesis
      unfolding hit using Cons.IH True by (simp add: esc_char_def)
  next
    case False
    then have m: "match_at False (Cls False (map CChar syntax_chars)) (x # xs) = None"
      by (simp add: match_at_special)
    show ?thesis
      using replace_all_skip[OF m, of "backslash # ''$&''" pre] Cons.IH False
      by (simp add: esc_char_def)
  qed
qed

lemma escapeFilename_eq: "escapeFilename b = concat (map esc_char b)"
  by (simp add: escapeFilename_def str_replace_def re_special_def escape_replace_all)

subsection \<open>Reading the pattern text\<close>

lemma syntax_char_cases:
  "is_syntax_char x \<longleftrightarrow>
     x = CHR ''.'' \<or> x = CHR ''*'' \<or> x = CHR ''+'' \<or> x = CHR ''?'' \<or> x = CHR ''^'' \<or> x = CHR ''$''
     \<or> x = CHR ''{'' \<or> x = CHR ''}'' \<or> x = CHR ''('' \<or> x = CHR '')'' \<or> x = CHR ''|''
     \<or> x = CHR ''['' \<or> x = CHR '']'' \<or> x = backslash"
  by (auto simp: is_syntax_char_def syntax_chars_def)

lemma parse_main_plain:
  "\<not> is_syntax_char x \<Longrightarrow> parse_main st (x # s) = parse_main (add_atom (Chr x) st) s"
  by (auto simp: syntax_char_cases)

lemma parse_main_escaped:
  "is_syntax_char x \<Longrightarrow> parse_main st (backslash # x # s) = parse_main (add_atom (Chr x) st) s"
  by (auto simp: syntax_char_cases backslash_def)

lemma parse_main_literal:
  "parse_main (PState stack (Frame kind as ts) n q) (concat (map esc_char b) @ rest) =
     parse_main (PState stack (Frame kind as (ts @ chrs b)) n (q \<or> b \<noteq> [])) rest"
proof (induction b arbitrary: ts q)
  case Nil
  show ?case by (simp add: chrs_def)
next
  case (Cons x b)
  show ?case
  proof (cases "is_syntax_char x")
    case True
    then have "parse_main (PState stack (Frame kind as ts) n q) (concat (map esc_char (x # b)) @ rest)
        = parse_main (PState stack (Frame kind as (ts @ [Chr x])) n True) (concat (map esc_char b) @ rest)"
      by (simp add: esc_char_def parse_main_escaped del: parse_main.simps)
    then show ?thesis using Cons.IH[of "ts @ [Chr x]" True] by (simp add: chrs_def)
  next
    case False
    then have "parse_main (PState stack (Frame kind as ts) n q) (concat (map esc_char (x # b)) @ rest)
        = parse_main (PState stack (Frame kind as (ts @ [Chr x])) n True) (concat (map esc_char b) @ rest)"
      by (simp add: esc_char_def parse_main_plain del: parse_main.simps)
    then show ?thesis using Cons.IH[of "ts @ [Chr x]" True] by (simp add: chrs_def)
  qed
qed

lemma escaped_head:
  "\<exists>d t. concat (map esc_char b) @ CHR ''['' # rest = d # t \<and> d \<noteq> CHR ''?''"
proof (cases b)
  case Nil
  then show ?thesis by simp
next
  case (Cons x b')
  then show ?thesis by (auto simp: esc_char_def syntax_char_cases backslash_def)
qed

lemma parse_main_opt:
  "d \<noteq> CHR ''?'' \<Longrightarrow> parse_main st (CHR ''?'' # d # t) =
     (case quantify Opt st of None \<Rightarrow> None | Some st' \<Rightarrow> parse_main st' (d # t))"
  by (simp add: syntax_char_cases)

lemma syntax_char_literals:
  "is_syntax_char backslash" "\<not> is_syntax_char CHR ''s''" "\<not> is_syntax_char CHR ''r''"
  "\<not> is_syntax_char CHR ''c''" "\<not> is_syntax_char CHR ''h''" "\<not> is_syntax_char CHR ''e''"
  "\<not> is_syntax_char CHR ''f''" "\<not> is_syntax_char CHR ''=''"
  by (simp_all add: syntax_char_cases backslash_def)

lemma parse_path_prefix:
  "parse_main (PState [] (Frame TopLevel [] []) 1 False)
     ((''(src|href)=['' @ [dquote, squote] @ '']([^'' @ [dquote, squote] @ '']*[/'' @ [backslash, backslash] @ ''])'') @ t) =
   parse_main (PState [] (Frame TopLevel []
       [Group 1 (Alt (seq (chrs ''src'')) (seq (chrs ''href''))), Chr CHR ''='',
        Cls False [CChar dquote, CChar squote],
        Group 2 (Seq (Star True (Cls True [CChar dquote, CChar squote]))
                     (Cls False [CChar CHR ''/'', CChar backslash]))]) 3 True) t"
  by (simp add: syntax_char_cases chrs_def dquote_def squote_def backslash_def
      numeral_2_eq_2 numeral_3_eq_3)

lemma parse_bare_prefix:
  "parse_main (PState [] (Frame TopLevel [] []) 1 False)
     ((''(src|href)=['' @ [dquote, squote] @ '']'') @ t) =
   parse_main (PState [] (Frame TopLevel []
       [Group 1 (Alt (seq (chrs ''src'')) (seq (chrs ''href''))), Chr CHR ''='',
        Cls False [CChar dquote, CChar squote]]) 2 True) t"
  by (simp add: syntax_char_cases chrs_def dquote_def squote_def backslash_def
      numeral_2_eq_2 numeral_3_eq_3)

lemma parse_suffix:
  "parse_main (PState [] (Frame TopLevel [] ts) n q) (''['' @ [dquote, squote] @ '']'') =
     Some (seq (ts @ [Cls False [CChar dquote, CChar squote]]))"
  by (simp add: syntax_char_cases dquote_def squote_def backslash_def)

lemma path_pattern_split:
  "path_pattern e =
     (''(src|href)=['' @ [dquote, squote] @ '']([^'' @ [dquote, squote] @ '']*[/'' @ [backslash, backslash] @ ''])'')
     @ CHR ''?'' # (e @ CHR ''['' # [dquote, squote] @ '']'')"
  by (simp add: path_pattern_def dquote_def squote_def)

lemma bare_pattern_split:
  "bare_pattern e = (''(src|href)=['' @ [dquote, squote] @ '']'') @ (e @ ''['' @ [dquote, squote] @ '']'')"
  by (simp add: bare_pattern_def dquote_def squote_def)

lemma parse_path_pattern: "parse_pattern (path_pattern (escapeFilename b)) = Some (path_re b)"
proof -
  let ?e = "concat (map esc_char b)"
  let ?st = "PState [] (Frame TopLevel []
       [Group 1 (Alt (seq (chrs ''src'')) (seq (chrs ''href''))), Chr CHR ''='',
        Cls False [CChar dquote, CChar squote],
        Group 2 (Seq (Star True (Cls True [CChar dquote, CChar squote]))
                     (Cls False [CChar CHR ''/'', CChar backslash]))]) 3 True"
  let ?ts = "[Group 1 (Alt (seq (chrs ''src'')) (seq (chrs ''href''))), Chr CHR ''='',
        Cls False [CChar dquote, CChar squote],
        Opt (Group 2 (Seq (Star True (Cls True [CChar dquote, CChar squote]))
                     (Cls False [CChar CHR ''/'', CChar backslash])))]"
  obtain d t where dt: "?e @ CHR ''['' # [dquote, squote] @ '']'' = d # t" "d \<noteq> CHR ''?''"
    using escaped_head[of b "[dquote, squote] @ '']''"] by blast
  have "parse_pattern (path_pattern ?e) = parse_main ?st (CHR ''?'' # d # t)"
    by (simp only: parse_pattern_def path_pattern_split dt(1) parse_path_prefix)
  also have "\<dots> = parse_main (PState [] (Frame TopLevel [] ?ts) 3 False) (d # t)"
    unfolding parse_main_opt[OF dt(2)] by simp
  also have "\<dots> = parse_main (PState [] (Frame TopLevel [] ?ts) 3 False)
      (?e @ (''['' @ [dquote, squote] @ '']''))"
    using dt(1) by simp
  also have "\<dots> = parse_main (PState [] (Frame TopLevel [] (?ts @ chrs b)) 3 (False \<or> b \<noteq> []))
      (''['' @ [dquote, squote] @ '']'')"
    by (rule parse_main_literal)
  also have "\<dots> = Some (seq ((?ts @ chrs b) @ [Cls False [CChar dquote, CChar squote]]))"
    by (rule parse_suffix)
  also have "\<dots> = Some (path_re b)"
    by (simp add: path_re_def attr_group_def path_group_def cls_quote_def cls_not_quote_def)
  finally show ?thesis by (simp add: escapeFilename_eq)
qed

lemma parse_bare_pattern: "parse_pattern (bare_pattern (escapeFilename b)) = Some (bare_re b)"
proof -
  let ?e = "concat (map esc_char b)"
  let ?ts = "[Group 1 (Alt (seq (chrs ''src'')) (seq (chrs ''href''))), Chr CHR ''='',
        Cls False [CChar dquote, CChar squote]]"
  have "parse_pattern (bare_pattern ?e) = parse_main (PState [] (Frame TopLevel [] ?ts) 2 True)
      (?e @ (''['' @ [dquote, squote] @ '']''))"
    by (simp only: parse_pattern_def bare_pattern_split parse_bare_prefix)
  also have "\<dots> = parse_main (PState [] (Frame TopLevel [] (?ts @ chrs b)) 2 (True \<or> b \<noteq> []))
      (''['' @ [dquote, squote] @ '']'')"
    by (rule parse_main_literal)
  also have "\<dots> = Some (seq ((?ts @ chrs b) @ [Cls False [CChar dquote, CChar squote]]))"
    by (rule parse_suffix)
  also have "\<dots> = Some (bare_re b)"
    by (simp add: bare_re_def attr_group_def cls_quote_def)
  finally show ?thesis by (simp add: escapeFilename_eq)
qed

subsection \<open>One pass of the source is one pass of the description\<close>

lemma reach_ref_re:
  "reach True (ref_re wp b) s c s' c' \<Longrightarrow> \<exists>a. ref_shape wp b s a s' \<and> c' 1 = Some a"
  by (cases wp) (auto simp: ref_re_def dest: reach_path_re reach_bare_re)

lemma reach_ref_re_intro:
  "ref_shape wp b s a s' \<Longrightarrow> \<exists>c'. reach True (ref_re wp b) s c s' c'"
  by (cases wp) (auto simp: ref_re_def dest: reach_path_re_intro reach_bare_re_intro)

lemma groups_seq: "groups (seq rs) = concat (map groups rs)"
  by (induction rs rule: seq.induct) simp_all

lemma groups_chrs: "concat (map groups (chrs b)) = []"
  by (induction b) (simp_all add: chrs_def)

lemma groups_ref_re: "1 \<le> length (groups (ref_re wp b))"
  by (simp add: ref_re_def path_re_def bare_re_def groups_seq groups_chrs attr_group_def)

lemma ref_at_Nil: "ref_at wp b [] = None"
  by (simp add: ref_at_def attr_at_def)

lemma match_ref_None:
  assumes "quote_free b" and "ref_at wp b s = None"
  shows "match_at True (ref_re wp b) s = None"
proof -
  have "\<not> reach True (ref_re wp b) s no_captures s' c'" for s' c'
  proof
    assume "reach True (ref_re wp b) s no_captures s' c'"
    from reach_ref_re[OF this] obtain a where "ref_shape wp b s a s'" by blast
    from ref_shape_imp_ref_at[OF assms(1) this] assms(2) show False by simp
  qed
  then show ?thesis by (simp add: match_at_None_iff)
qed

lemma match_ref_Some:
  assumes "quote_free b" and "ref_at wp b s = Some (a, rest)"
  shows "\<exists>c'. match_at True (ref_re wp b) s = Some (rest, c') \<and> c' 1 = Some a"
proof -
  from ref_at_imp_ref_shape[OF assms(2)] have sh: "ref_shape wp b s a rest" .
  from reach_ref_re_intro[OF sh] obtain c0 where "reach True (ref_re wp b) s no_captures rest c0"
    by blast
  then have "match_at True (ref_re wp b) s \<noteq> None" by (auto simp: match_at_None_iff)
  then obtain s' c' where m: "match_at True (ref_re wp b) s = Some (s', c')" by auto
  from reach_ref_re[OF match_at_Some[OF m]] obtain a' where
    "ref_shape wp b s a' s'" "c' 1 = Some a'" by blast
  with ref_shape_imp_ref_at[OF assms(1), of wp s a' s'] assms(2) m show ?thesis by simp
qed

lemma replace_refs:
  "quote_free b \<Longrightarrow> CHR ''$'' \<notin> set d \<Longrightarrow>
     replace_all True (ref_re wp b) (replacement d) pre s = rewrite_refs wp b d s"
proof (induction wp b d s arbitrary: pre rule: rewrite_refs.induct)
  case (1 wp b d)
  from match_ref_None[OF 1(1) ref_at_Nil] show ?case by (simp add: replace_all_Nil)
next
  case (2 wp b d x xs)
  note qf = "2.prems"(1) and nd = "2.prems"(2)
  show ?case
  proof (cases "ref_at wp b (x # xs)")
    case None
    from replace_all_skip[OF match_ref_None[OF qf None]] "2.IH"(1)[OF None qf nd] None
    show ?thesis by simp
  next
    case (Some p)
    obtain a rest where p: "p = (a, rest)" by (cases p)
    from match_ref_Some[OF qf Some[unfolded p]] obtain c' where
      m: "match_at True (ref_re wp b) (x # xs) = Some (rest, c')" and c: "c' 1 = Some a" by blast
    from ref_shape_shorter[OF ref_at_imp_ref_shape[OF Some[unfolded p]]]
    have l: "length rest < length (x # xs)" .
    have g: "GetSubstitution mt pr su c' (length (groups (ref_re wp b))) (replacement d) =
        a @ [CHR ''='', dquote] @ d @ [dquote]" for mt pr su
      using GetSubstitution_replacement[OF groups_ref_re nd] c by (simp add: capture_text_def)
    from replace_all_hit[OF m l, of "replacement d" pre] "2.IH"(2)[OF Some p[symmetric] qf nd]
      Some p g
    show ?thesis by simp
  qed
qed

lemma inline_asset_eq:
  "inline_asset (b, d) s =
     Some (replace_all True (ref_re False b) (replacement d) []
            (replace_all True (ref_re True b) (replacement d) [] s))"
  by (simp add: inline_asset_def new_RegExp_gi_def parse_path_pattern parse_bare_pattern
      str_replace_def ref_re_def Let_def)

lemma inline_asset_refines:
  "quote_free b \<Longrightarrow> CHR ''$'' \<notin> set d \<Longrightarrow>
     inline_asset (b, d) s = Some (rewrite_refs False b d (rewrite_refs True b d s))"
  by (simp add: inline_asset_eq replace_refs)

lemma inlineReferences_refines:
  "list_all (\<lambda>asset. quote_free (fst asset) \<and> CHR ''$'' \<notin> set (snd asset)) amap \<Longrightarrow>
     inlineReferences amap s = Some (rewrite_all amap s)"
proof (induction amap arbitrary: s)
  case Nil
  show ?case by simp
next
  case (Cons asset amap)
  obtain b d where a: "asset = (b, d)" by (cases asset)
  with Cons.prems have "quote_free b" "CHR ''$'' \<notin> set d" by simp_all
  from inline_asset_refines[OF this] Cons a show ?case by simp
qed

subsection \<open>A text without the basename is left as it is\<close>

lemma quoted_prefix_intro: "ci_eq v b \<Longrightarrow> is_quote q \<Longrightarrow> quoted_prefix b (v @ q # t)"
  using ci_eq_length[of v b] by (simp add: quoted_prefix_def nth_append)

lemma basename_occurs_intro:
  "ci_eq v b \<Longrightarrow> is_quote q \<Longrightarrow> basename_occurs b (u @ v @ q # t)"
proof (induction u)
  case Nil
  from quoted_prefix_intro[OF Nil, of t] show ?case by (cases "v @ q # t") auto
next
  case (Cons x u)
  then show ?case by simp
qed

lemma ref_shape_occurs: "ref_shape wp b s a s' \<Longrightarrow> basename_occurs b s"
proof -
  assume "ref_shape wp b s a s'"
  then obtain q g v q' where "s = (a @ CHR ''='' # q # g) @ v @ q' # s'" "ci_eq v b" "is_quote q'"
    unfolding ref_shape_def by auto
  then show ?thesis using basename_occurs_intro by metis
qed

lemma match_ref_absent: "\<not> basename_occurs b s \<Longrightarrow> match_at True (ref_re wp b) s = None"
  unfolding match_at_None_iff by (blast dest: reach_ref_re ref_shape_occurs)

lemma replace_all_absent:
  "\<not> basename_occurs b s \<Longrightarrow> replace_all True (ref_re wp b) tmpl pre s = s"
proof (induction s arbitrary: pre)
  case Nil
  from match_ref_absent[OF Nil] show ?case by (simp add: replace_all_Nil)
next
  case (Cons x xs)
  from Cons.prems have "\<not> basename_occurs b xs" by simp
  from Cons.IH[OF this] replace_all_skip[OF match_ref_absent[OF Cons.prems]]
  show ?case by simp
qed

lemma inline_asset_absent: "\<not> basename_occurs b s \<Longrightarrow> inline_asset (b, d) s = Some s"
  by (simp add: inline_asset_eq replace_all_absent)

lemma inlineReferences_absent:
  "list_all (\<lambda>asset. \<not> basename_occurs (fst asset) s) amap \<Longrightarrow> inlineReferences amap s = Some s"
proof (induction amap)
  case Nil
  show ?case by simp
next
  case (Cons asset amap)
  obtain b d where a: "asset = (b, d)" by (cases asset)
  with Cons.prems have "\<not> basename_occurs b s" by simp
  from inline_asset_absent[OF this] Cons a show ?case by simp
qed

lemma inlineReferences_total: "\<exists>out. inlineReferences amap s = Some out"
proof (induction amap arbitrary: s)
  case Nil
  show ?case by simp
next
  case (Cons asset amap)
  obtain b d where a: "asset = (b, d)" by (cases asset)
  then show ?case using Cons[of "the (inline_asset (b, d) s)"] by (simp add: inline_asset_eq)
qed

subsection \<open>One reference in a plain context\<close>

lemma rewrite_skip:
  "(\<forall>k<length u. ref_at wp b (drop k u @ t) = None) \<Longrightarrow>
     rewrite_refs wp b d (u @ t) = u @ rewrite_refs wp b d t"
proof (induction u)
  case Nil
  show ?case by simp
next
  case (Cons x u)
  from Cons.prems have 0: "ref_at wp b ((x # u) @ t) = None" by (metis drop0 length_greater_0_conv list.distinct(1))
  have "\<forall>k<length u. ref_at wp b (drop k u @ t) = None"
  proof (intro allI impI)
    fix k assume "k < length u"
    then have "Suc k < length (x # u)" by simp
    with Cons.prems have "ref_at wp b (drop (Suc k) (x # u) @ t) = None" by blast
    then show "ref_at wp b (drop k u @ t) = None" by simp
  qed
  from Cons.IH[OF this] 0 show ?case by simp
qed

lemma rewrite_hit:
  "ref_at wp b s = Some (a, rest) \<Longrightarrow>
     rewrite_refs wp b d s = a @ [CHR ''='', dquote] @ d @ [dquote] @ rewrite_refs wp b d rest"
  by (cases s) (simp_all add: ref_at_Nil)

lemma ref_at_absent: "\<not> basename_occurs b s \<Longrightarrow> ref_at wp b s = None"
proof (cases "ref_at wp b s")
  case (Some p)
  assume n: "\<not> basename_occurs b s"
  obtain a rest where "p = (a, rest)" by (cases p)
  with Some ref_shape_occurs[OF ref_at_imp_ref_shape] n show ?thesis by blast
qed simp

lemma rewrite_absent: "\<not> basename_occurs b s \<Longrightarrow> rewrite_refs wp b d s = s"
proof (induction s)
  case Nil
  show ?case by simp
next
  case (Cons x xs)
  from Cons.prems have "\<not> basename_occurs b xs" by simp
  from Cons.IH[OF this] ref_at_absent[OF Cons.prems] show ?case by simp
qed

lemma ci_eq_caseless_mem: "ci_eq a x \<Longrightarrow> caseless ch \<Longrightarrow> ch \<in> set a \<Longrightarrow> ch \<in> set x"
proof (induction a arbitrary: x)
  case Nil
  then show ?case by simp
next
  case (Cons y a)
  then obtain z x' where x: "x = z # x'" by (cases x) auto
  with Cons.prems have e: "toUpperChar y = toUpperChar z" "ci_eq a x'" by (simp_all add: ci_eq_Cons)
  show ?case
  proof (cases "ch = y")
    case True
    with toUpperChar_eq_caseless[OF Cons.prems(2), of z] e(1) have "z = ch" by simp
    with x show ?thesis by simp
  next
    case False
    with Cons.prems have "ch \<in> set a" by simp
    from Cons.IH[OF e(2) Cons.prems(2) this] x show ?thesis by simp
  qed
qed

lemma attr_plain:
  assumes "ci_eq a ''src'' \<or> ci_eq a ''href''"
  shows "CHR ''='' \<notin> set a" and "quote_free a"
proof -
  show "CHR ''='' \<notin> set a"
    using assms ci_eq_caseless_mem[OF _ caseless_chars(3), of a "''src''"]
      ci_eq_caseless_mem[OF _ caseless_chars(3), of a "''href''"] by auto
  have "quote_free ''src''" "quote_free ''href''"
    by (simp_all add: quote_free_def is_quote_def dquote_def squote_def)
  with assms show "quote_free a" by (auto dest: ci_eq_quote_free)
qed

lemma split_at_first:
  "x \<notin> set xs \<Longrightarrow> x \<notin> set xs' \<Longrightarrow> xs @ x # ys = xs' @ x # ys' \<Longrightarrow> xs = xs'"
proof (induction xs arbitrary: xs')
  case Nil
  then show ?case by (cases xs') auto
next
  case (Cons z xs)
  then show ?case by (cases xs') auto
qed

lemma upper_r_s: "toUpperChar CHR ''r'' \<noteq> toUpperChar CHR ''s''"
  by code_simp

lemma no_ref_before:
  assumes "CHR ''='' \<notin> set u" and "u \<noteq> []" and "ci_eq a ''src'' \<or> ci_eq a ''href''"
  shows "ref_at wp b (u @ a @ CHR ''='' # t) = None"
proof (cases "ref_at wp b (u @ a @ CHR ''='' # t)")
  case (Some p)
  obtain a' s' where p: "p = (a', s')" by (cases p)
  from ref_at_imp_ref_shape[OF Some[unfolded p]] obtain r where
    s: "u @ a @ CHR ''='' # t = a' @ CHR ''='' # r" and a': "ci_eq a' ''src'' \<or> ci_eq a' ''href''"
    unfolding ref_shape_def by auto
  have s2: "(u @ a) @ CHR ''='' # t = a' @ CHR ''='' # r" using s by simp
  have n1: "CHR ''='' \<notin> set (u @ a)" using assms(1) attr_plain(1)[OF assms(3)] by simp
  have n2: "CHR ''='' \<notin> set a'" by (rule attr_plain(1)[OF a'])
  have eq: "u @ a = a'" by (rule split_at_first[OF n1 n2 s2])
  from a' have la': "length a' = 3 \<or> length a' = 4" by (auto dest: ci_eq_length)
  from assms(3) have la: "length a = 3 \<or> length a = 4" by (auto dest: ci_eq_length)
  from eq la la' assms(2) have l: "length u = 1" "length a = 3" "length a' = 4"
    by (cases u; auto)+
  from l(2) assms(3) have src: "ci_eq a ''src''" by (auto dest: ci_eq_length)
  from l(3) a' have href: "ci_eq a' ''href''" by (auto dest: ci_eq_length)
  from l(1) obtain z where u: "u = [z]" by (cases u) auto
  from l(2) obtain a1 a2 a3 where a: "a = [a1, a2, a3]"
    by (cases a; cases "tl a"; cases "tl (tl a)") auto
  from src a have "toUpperChar a1 = toUpperChar CHR ''s''" by (simp add: ci_eq_Cons)
  moreover from href eq u a have "toUpperChar a1 = toUpperChar CHR ''r''"
    by (auto simp: ci_eq_Cons)
  ultimately show ?thesis using upper_r_s by simp
qed simp

lemma skip_context:
  assumes "CHR ''='' \<notin> set u" and "ci_eq a ''src'' \<or> ci_eq a ''href''"
  shows "rewrite_refs wp b d (u @ a @ CHR ''='' # t) = u @ rewrite_refs wp b d (a @ CHR ''='' # t)"
proof (rule rewrite_skip, intro allI impI)
  fix k assume k: "k < length u"
  then have n: "drop k u \<noteq> []" by simp
  have e: "CHR ''='' \<notin> set (drop k u)" using assms(1) by (auto dest: in_set_dropD)
  show "ref_at wp b (drop k u @ a @ CHR ''='' # t) = None"
    by (rule no_ref_before[OF e n assms(2)])
qed

lemma ref_at_reference:
  assumes "quote_free b" and "ci_eq a ''src'' \<or> ci_eq a ''href''" and "is_quote q" and "is_quote q'"
    and "path_ok p" and "ci_eq v b"
  shows "ref_at True b (a @ CHR ''='' # q # p @ v @ q' # w) = Some (a, w)"
proof (rule ref_shape_imp_ref_at[OF assms(1)])
  show "ref_shape True b (a @ CHR ''='' # q # p @ v @ q' # w) a w"
    unfolding ref_shape_def using assms by auto
qed

lemma first_pass:
  assumes "quote_free b" and "CHR ''='' \<notin> set u" and "ci_eq a ''src'' \<or> ci_eq a ''href''"
    and "is_quote q" and "is_quote q'" and "path_ok p" and "ci_eq v b"
    and "\<not> basename_occurs b w"
  shows "rewrite_refs True b d (u @ a @ CHR ''='' # q # p @ v @ q' # w) =
           u @ a @ CHR ''='' # dquote # d @ dquote # w"
  using skip_context[OF assms(2,3), of True b d "q # p @ v @ q' # w"]
    rewrite_hit[OF ref_at_reference[OF assms(1,3,4,5,6,7), of w], of d]
    rewrite_absent[OF assms(8), of True d]
  by simp

lemma ref_at_open:
  assumes "quote_free x" and "quote_free b" and "ci_eq a ''src'' \<or> ci_eq a ''href''"
    and "ref_at wp b (a @ CHR ''='' # dquote # t) = None"
  shows "ref_at wp b (x @ dquote # t) = None"
proof (cases "ref_at wp b (x @ dquote # t)")
  case (Some pr)
  obtain a' s' where pr: "pr = (a', s')" by (cases pr)
  from ref_at_imp_ref_shape[OF Some[unfolded pr]] obtain q1 g v' q2 where
    s: "x @ dquote # t = (a' @ [CHR ''='']) @ q1 # g @ v' @ q2 # s'"
    and a': "ci_eq a' ''src'' \<or> ci_eq a' ''href''" and q: "is_quote q1" "is_quote q2"
    and g: "if wp then path_ok g else g = []" and v': "ci_eq v' b"
    unfolding ref_shape_def by auto
  have dq: "is_quote dquote" by (simp add: is_quote_def)
  have qa: "quote_free (a' @ [CHR ''=''])"
    using attr_plain(2)[OF a'] by (simp add: quote_free_def is_quote_def dquote_def squote_def)
  from arg_cong[OF s, of "dropWhile (\<lambda>ch. \<not> is_quote ch)"]
  have "dquote # t = q1 # g @ v' @ q2 # s'"
    by (simp only: dropWhile_quote_free[OF assms(1) dq] dropWhile_quote_free[OF qa q(1)])
  then have "a @ CHR ''='' # dquote # t = a @ CHR ''='' # q1 # g @ v' @ q2 # s'" by simp
  with assms(3) q g v' have "ref_shape wp b (a @ CHR ''='' # dquote # t) a s'"
    unfolding ref_shape_def by blast
  from ref_shape_imp_ref_at[OF assms(2) this] assms(4) show ?thesis by simp
qed simp

lemma ref_at_close:
  assumes "quote_free y" and "\<not> basename_occurs b w"
  shows "ref_at wp b (y @ dquote # w) = None"
proof (cases "ref_at wp b (y @ dquote # w)")
  case (Some pr)
  obtain a' s' where pr: "pr = (a', s')" by (cases pr)
  from ref_at_imp_ref_shape[OF Some[unfolded pr]] obtain q1 g v' q2 where
    s: "y @ dquote # w = (a' @ [CHR ''='']) @ q1 # g @ v' @ q2 # s'"
    and a': "ci_eq a' ''src'' \<or> ci_eq a' ''href''" and q: "is_quote q1" "is_quote q2"
    and v': "ci_eq v' b"
    unfolding ref_shape_def by auto
  have dq: "is_quote dquote" by (simp add: is_quote_def)
  have qa: "quote_free (a' @ [CHR ''=''])"
    using attr_plain(2)[OF a'] by (simp add: quote_free_def is_quote_def dquote_def squote_def)
  from arg_cong[OF s, of "dropWhile (\<lambda>ch. \<not> is_quote ch)"]
  have "dquote # w = q1 # g @ v' @ q2 # s'"
    by (simp only: dropWhile_quote_free[OF assms(1) dq] dropWhile_quote_free[OF qa q(1)])
  then have "w = g @ v' @ q2 # s'" by simp
  with basename_occurs_intro[OF v' q(2), of g s'] assms(2) show ?thesis by simp
qed simp

lemma block_hit:
  assumes "quote_free b" and "quote_free d" and "ci_eq a ''src'' \<or> ci_eq a ''href''"
    and "ref_at wp b (a @ CHR ''='' # dquote # d @ dquote # w) = Some (a', s')"
  shows "a' = a \<and> s' = w"
proof -
  from ref_at_imp_ref_shape[OF assms(4)] obtain q1 g v' q2 where
    s: "a @ CHR ''='' # dquote # d @ dquote # w = a' @ CHR ''='' # q1 # g @ v' @ q2 # s'"
    and a': "ci_eq a' ''src'' \<or> ci_eq a' ''href''" and q: "is_quote q1" "is_quote q2"
    and g: "if wp then path_ok g else g = []" and v': "ci_eq v' b"
    unfolding ref_shape_def by auto
  have dq: "is_quote dquote" by (simp add: is_quote_def)
  have a: "a = a'" by (rule split_at_first[OF attr_plain(1)[OF assms(3)] attr_plain(1)[OF a'] s])
  have "quote_free g" using g path_ok_quote_free[of g] by (cases wp) (simp_all add: quote_free_def)
  with ci_eq_quote_free[OF v' assms(1)] have qg: "quote_free (g @ v')" by simp
  from s a have e: "d @ dquote # w = (g @ v') @ q2 # s'" by simp
  from arg_cong[OF e, of "takeWhile (\<lambda>ch. \<not> is_quote ch)"]
  have "d = g @ v'"
    by (simp only: takeWhile_quote_free[OF assms(2) dq] takeWhile_quote_free[OF qg q(2)])
  with e a show ?thesis by simp
qed

lemma block_stable:
  assumes "quote_free b" and "quote_free d" and "ci_eq a ''src'' \<or> ci_eq a ''href''"
    and "\<not> basename_occurs b w"
  shows "rewrite_refs wp b d (a @ CHR ''='' # dquote # d @ dquote # w) =
           a @ CHR ''='' # dquote # d @ dquote # w"
proof (cases "ref_at wp b (a @ CHR ''='' # dquote # d @ dquote # w)")
  case (Some pr)
  obtain a' s' where pr: "pr = (a', s')" by (cases pr)
  from block_hit[OF assms(1,2,3) Some[unfolded pr]] Some pr
  have "ref_at wp b (a @ CHR ''='' # dquote # d @ dquote # w) = Some (a, w)" by simp
  from rewrite_hit[OF this, of d] rewrite_absent[OF assms(4), of wp d]
  show ?thesis by simp
next
  case None
  have qa: "quote_free (a @ [CHR ''=''])"
    using attr_plain(2)[OF assms(3)] by (simp add: quote_free_def is_quote_def dquote_def squote_def)
  have 1: "rewrite_refs wp b d ((a @ [CHR ''='']) @ dquote # d @ dquote # w) =
      (a @ [CHR ''='']) @ rewrite_refs wp b d (dquote # d @ dquote # w)"
  proof (rule rewrite_skip, intro allI impI)
    fix k
    have "quote_free (drop k (a @ [CHR ''='']))"
      using qa by (auto simp: quote_free_def list_all_iff dest: in_set_dropD)
    from ref_at_open[OF this assms(1,3) None]
    show "ref_at wp b (drop k (a @ [CHR ''='']) @ dquote # d @ dquote # w) = None" .
  qed
  have "ref_at wp b ([] @ dquote # d @ dquote # w) = None"
    by (rule ref_at_open[OF _ assms(1,3) None]) (simp add: quote_free_def)
  then have 2: "rewrite_refs wp b d (dquote # d @ dquote # w) =
      dquote # rewrite_refs wp b d (d @ dquote # w)" by simp
  have 3: "rewrite_refs wp b d (d @ dquote # w) = d @ rewrite_refs wp b d (dquote # w)"
  proof (rule rewrite_skip, intro allI impI)
    fix k
    have "quote_free (drop k d)"
      using assms(2) by (auto simp: quote_free_def list_all_iff dest: in_set_dropD)
    from ref_at_close[OF this assms(4)]
    show "ref_at wp b (drop k d @ dquote # w) = None" .
  qed
  have "ref_at wp b ([] @ dquote # w) = None"
    by (rule ref_at_close[OF _ assms(4)]) (simp add: quote_free_def)
  then have 4: "rewrite_refs wp b d (dquote # w) = dquote # rewrite_refs wp b d w" by simp
  from 1 2 3 4 rewrite_absent[OF assms(4), of wp d] show ?thesis by simp
qed


lemma single_reference:
  assumes "quote_free b" and "quote_free d" and "CHR ''$'' \<notin> set d"
    and "CHR ''='' \<notin> set u" and "ci_eq a ''src'' \<or> ci_eq a ''href''"
    and "is_quote q" and "is_quote q'" and "path_ok p" and "ci_eq v b"
    and "\<not> basename_occurs b w"
  shows "inlineReferences [(b, d)] (u @ a @ CHR ''='' # q # p @ v @ q' # w) =
           Some (u @ a @ CHR ''='' # dquote # d @ dquote # w)"
proof -
  have "rewrite_refs False b d (u @ a @ CHR ''='' # dquote # d @ dquote # w) =
      u @ a @ CHR ''='' # dquote # d @ dquote # w"
    using skip_context[OF assms(4,5), of False b d "dquote # d @ dquote # w"]
      block_stable[OF assms(1,2,5,10)] by simp
  with first_pass[OF assms(1,4,5,6,7,8,9,10), of d] inline_asset_refines[OF assms(1,3)]
  show ?thesis by simp
qed

subsection \<open>Claims on the reference rewriting\<close>

text \<open>
  Claim C1, as amended. The step is the scan of the description, with the
  basename compared up to letter case: for every asset map whose basenames
  contain no quote and whose data URLs contain no \<^verbatim>\<open>$\<close>, and every text, the
  result is that of \<open>rewrite_all\<close>, asset after asset in the order of the map,
  each on the result of the one before. In a text with one reference to the
  single asset of a map, the value being the basename itself or a path ending
  in \<^verbatim>\<open>/\<close> or \<^verbatim>\<open>\\<close> followed by it, the reference becomes the attribute name,
  \<^verbatim>\<open>="\<close>, the data URL of the map and \<^verbatim>\<open>"\<close>, whatever characters the basename
  is made of. A text in which no basename of the map, in any letter case, stands
  before a quote is returned as it is.
\<close>

theorem references_rewritten:
  "(list_all (\<lambda>asset. quote_free (fst asset) \<and> CHR ''$'' \<notin> set (snd asset)) amap \<longrightarrow>
      inlineReferences amap s = Some (rewrite_all amap s))
   \<and> (quote_free b \<and> quote_free d \<and> CHR ''$'' \<notin> set d \<and> CHR ''='' \<notin> set u
        \<and> (ci_eq a ''src'' \<or> ci_eq a ''href'') \<and> is_quote q \<and> is_quote q' \<and> path_ok p
        \<and> \<not> basename_occurs b w \<longrightarrow>
      inlineReferences [(b, d)] (u @ a @ CHR ''='' # q # p @ b @ q' # w) =
        Some (u @ a @ CHR ''='' # dquote # d @ dquote # w))
   \<and> (list_all (\<lambda>asset. \<not> basename_occurs (fst asset) t) amap \<longrightarrow>
        inlineReferences amap t = Some t)"
  using inlineReferences_refines[of amap s] inlineReferences_absent[of t amap]
    single_reference[of b d u a q q' p b w] ci_eq_refl[of b]
  by blast

lemma meta_facts:
  "quote_free meta_name" "quote_free meta_url" "CHR ''$'' \<notin> set meta_url"
  "CHR ''='' \<notin> set ''<img ''" "ci_eq ''src'' ''src''" "is_quote dquote" "path_ok ''img/''"
  "\<not> basename_occurs meta_name ''>''" "\<not> basename_occurs meta_name other_doc"
  by code_simp+

lemma meta_doc_parts:
  "''<img '' @ ''src'' @ CHR ''='' # dquote # ''img/'' @ meta_name @ dquote # ''>'' = meta_doc"
  "''<img '' @ ''src'' @ CHR ''='' # dquote # meta_url @ dquote # ''>'' = meta_inlined"
  by code_simp+

theorem references_rewritten_witness:
  "list_all (\<lambda>asset. quote_free (fst asset) \<and> CHR ''$'' \<notin> set (snd asset)) [(meta_name, meta_url)]
   \<and> inlineReferences [(meta_name, meta_url)] meta_doc = Some (rewrite_all [(meta_name, meta_url)] meta_doc)
   \<and> inlineReferences [(meta_name, meta_url)] meta_doc = Some meta_inlined
   \<and> list_all (\<lambda>asset. \<not> basename_occurs (fst asset) other_doc) [(meta_name, meta_url)]
   \<and> inlineReferences [(meta_name, meta_url)] other_doc = Some other_doc"
proof -
  note inst = references_rewritten[where amap = "[(meta_name, meta_url)]" and s = meta_doc
      and t = other_doc and b = meta_name and d = meta_url and u = "''<img ''" and a = "''src''"
      and q = dquote and q' = dquote and p = "''img/''" and w = "''>''"]
  have h1: "list_all (\<lambda>asset. quote_free (fst asset) \<and> CHR ''$'' \<notin> set (snd asset))
      [(meta_name, meta_url)]"
    by (simp add: meta_facts)
  have h3: "list_all (\<lambda>asset. \<not> basename_occurs (fst asset) other_doc) [(meta_name, meta_url)]"
    by (simp add: meta_facts)
  from inst h1 have c1: "inlineReferences [(meta_name, meta_url)] meta_doc =
      Some (rewrite_all [(meta_name, meta_url)] meta_doc)" by blast
  from inst meta_facts have "inlineReferences [(meta_name, meta_url)]
        (''<img '' @ ''src'' @ CHR ''='' # dquote # ''img/'' @ meta_name @ dquote # ''>'') =
      Some (''<img '' @ ''src'' @ CHR ''='' # dquote # meta_url @ dquote # ''>'')" by blast
  then have c2: "inlineReferences [(meta_name, meta_url)] meta_doc = Some meta_inlined"
    by (simp only: meta_doc_parts)
  from inst h3 have c3: "inlineReferences [(meta_name, meta_url)] other_doc = Some other_doc"
    by blast
  from h1 c1 c2 h3 c3 show ?thesis by blast
qed

text \<open>
  Claim C1 as stated fails: with the assets \<^verbatim>\<open>LOGO.PNG\<close> and \<^verbatim>\<open>logo.png\<close> in the
  map, in this order, the reference whose value is exactly \<^verbatim>\<open>logo.png\<close> is
  replaced by the data URL of \<^verbatim>\<open>LOGO.PNG\<close>.
\<close>

theorem wrong_asset_inlined:
  \<open>inlineReferences [(''LOGO.PNG'', ''data:application/octet-stream;base64,QQ==''),
                     (''logo.png'', ''data:application/octet-stream;base64,Qg=='')]
     ''<img src="logo.png">'' =
   Some ''<img src="data:application/octet-stream;base64,QQ==">''\<close>
  by code_simp

text \<open>
  Claim C2, as amended. Both patterns carry the flag \<^verbatim>\<open>i\<close>, so the basename is
  matched up to letter case: in a text with one reference whose value, after an
  optional path, differs from the basename of the single asset at most in
  letter case, the reference is replaced by the data URL. The basename is
  matched literally: no character of it acts as a pattern character. On every
  text, one turn of the loop over the assets is a pass with paths and then a
  pass without, both comparing the value with the basename up to letter case.
\<close>

theorem letter_case_ignored:
  assumes "quote_free b" and "quote_free d" and "CHR ''$'' \<notin> set d"
    and "CHR ''='' \<notin> set u" and "ci_eq a ''src'' \<or> ci_eq a ''href''"
    and "is_quote q" and "is_quote q'" and "path_ok p"
    and "map toUpperChar v = map toUpperChar b"
    and "\<not> basename_occurs b w"
  shows "parse_pattern (path_pattern (escapeFilename b)) = Some (path_re b)
         \<and> parse_pattern (bare_pattern (escapeFilename b)) = Some (bare_re b)
         \<and> inlineReferences [(b, d)] (u @ a @ CHR ''='' # q # p @ v @ q' # w) =
             Some (u @ a @ CHR ''='' # dquote # d @ dquote # w)
         \<and> inline_asset (b, d) s = Some (rewrite_refs False b d (rewrite_refs True b d s))"
proof -
  from assms(9) have "ci_eq v b" by (simp add: ci_eq_def)
  from single_reference[OF assms(1-8) this assms(10)] inline_asset_refines[OF assms(1,3), of s]
    parse_path_pattern[of b] parse_bare_pattern[of b]
  show ?thesis by blast
qed

lemma logo_facts:
  "quote_free ''logo.png''" "quote_free logo_url" "CHR ''$'' \<notin> set logo_url"
  "CHR ''='' \<notin> set ''<img ''" "ci_eq ''src'' ''src''" "is_quote dquote" "path_ok []"
  "map toUpperChar ''LOGO.PNG'' = map toUpperChar ''logo.png''"
  "\<not> basename_occurs ''logo.png'' ''>''"
  by code_simp+

lemma logo_doc_parts:
  "''<img '' @ ''src'' @ CHR ''='' # dquote # [] @ ''LOGO.PNG'' @ dquote # ''>'' = upper_doc"
  "''<img '' @ ''src'' @ CHR ''='' # dquote # logo_url @ dquote # ''>'' = logo_inlined"
  by code_simp+

theorem letter_case_ignored_witness:
  "quote_free ''logo.png'' \<and> map toUpperChar ''LOGO.PNG'' = map toUpperChar ''logo.png''
   \<and> ''LOGO.PNG'' \<noteq> ''logo.png''
   \<and> parse_pattern (path_pattern (escapeFilename ''logo.png'')) = Some (path_re ''logo.png'')
   \<and> inlineReferences [(''logo.png'', logo_url)] upper_doc = Some logo_inlined"
proof -
  have a: "ci_eq ''src'' ''src'' \<or> ci_eq ''src'' ''href''" using logo_facts(5) by blast
  note inst = letter_case_ignored[where b = "''logo.png''" and d = logo_url and u = "''<img ''"
      and a = "''src''" and q = dquote and q' = dquote and p = "[]" and v = "''LOGO.PNG''"
      and w = "''>''", OF logo_facts(1-4) a logo_facts(6) logo_facts(6) logo_facts(7-9)]
  from inst have "inlineReferences [(''logo.png'', logo_url)]
        (''<img '' @ ''src'' @ CHR ''='' # dquote # [] @ ''LOGO.PNG'' @ dquote # ''>'') =
      Some (''<img '' @ ''src'' @ CHR ''='' # dquote # logo_url @ dquote # ''>'')" by blast
  then have c: "inlineReferences [(''logo.png'', logo_url)] upper_doc = Some logo_inlined"
    by (simp only: logo_doc_parts)
  have n: "''LOGO.PNG'' \<noteq> ''logo.png''" by simp
  from inst logo_facts(1,8) n c show ?thesis by blast
qed

text \<open>
  Claim C2 as stated fails: the reference \<^verbatim>\<open>LOGO.PNG\<close> differs from the basename
  \<^verbatim>\<open>logo.png\<close> only in letter case, and it is replaced.
\<close>

theorem upper_case_reference_replaced:
  \<open>inlineReferences [(''logo.png'', ''data:application/octet-stream;base64,QUJD'')]
     ''<img src="LOGO.PNG">'' =
   Some ''<img src="data:application/octet-stream;base64,QUJD">''\<close>
  by code_simp






end
